theory Spec2Isabelle
  imports Main
begin

section \<open>Data model\<close>

text \<open>
  The dependency graph of \<^verbatim>\<open>main.py\<close> is a Python \<^verbatim>\<open>dict\<close> from a package name to
  the list of its dependencies. A \<^verbatim>\<open>dict\<close> iterates in insertion order, and that order
  is visible in the results, so the graph is an association list; \<open>is_dict\<close> says
  that no key occurs twice, which every Python \<^verbatim>\<open>dict\<close> satisfies.
\<close>

type_synonym node = string
type_synonym graph = "(node \<times> node list) list"

text \<open>
  The exceptions the analyses could raise: \<open>RecursionError\<close> when the nesting of
  \<^verbatim>\<open>dfs\<close> calls exceeds the interpreter's recursion limit, \<open>KeyError\<close> for
  \<^verbatim>\<open>d[k]\<close> and \<^verbatim>\<open>s.remove(k)\<close> on a missing key, \<open>IndexError\<close> for \<^verbatim>\<open>pop\<close> on an
  empty list, \<open>ValueError\<close> for \<^verbatim>\<open>max\<close> of an empty sequence.
\<close>

datatype error = RecursionError | KeyError | IndexError | ValueError

type_synonym 'a result = "error + 'a"

definition is_dict :: "('k \<times> 'v) list \<Rightarrow> bool" where
  "is_dict d = distinct (map fst d)"

text \<open>\<^verbatim>\<open>for no in grafo\<close>: the keys, in insertion order.\<close>

definition chaves :: "graph \<Rightarrow> node list" where
  "chaves g = map fst g"

text \<open>\<^verbatim>\<open>grafo.get(no, [])\<close>: the neighbour list, empty for a missing key.\<close>

definition vizinhos :: "graph \<Rightarrow> node \<Rightarrow> node list" where
  "vizinhos g no = (case map_of g no of None \<Rightarrow> [] | Some vs \<Rightarrow> vs)"

text \<open>\<^verbatim>\<open>grafo[no]\<close>: the neighbour list, \<open>KeyError\<close> for a missing key.\<close>

definition item :: "graph \<Rightarrow> node \<Rightarrow> node list result" where
  "item g no = (case map_of g no of None \<Rightarrow> Inl KeyError | Some vs \<Rightarrow> Inr vs)"

text \<open>\<^verbatim>\<open>d[k] = v\<close> on an insertion-ordered dictionary: an existing key keeps its place.\<close>

fun dict_set :: "('k \<times> 'v) list \<Rightarrow> 'k \<Rightarrow> 'v \<Rightarrow> ('k \<times> 'v) list" where
  "dict_set [] k v = [(k, v)]"
| "dict_set ((k', v') # d) k v =
     (if k' = k then (k, v) # d else (k', v') # dict_set d k v)"

text \<open>A \<^verbatim>\<open>for\<close> loop whose body may raise: the first error ends the loop.\<close>

fun for_each :: "('a \<Rightarrow> 's \<Rightarrow> 's result) \<Rightarrow> 'a list \<Rightarrow> 's \<Rightarrow> 's result" where
  "for_each body [] s = Inr s"
| "for_each body (x # xs) s =
     (case body x s of Inl e \<Rightarrow> Inl e | Inr s' \<Rightarrow> for_each body xs s')"

subsection \<open>The graph as a relation\<close>

text \<open>
  The edge relation that every traversal follows: \<open>u \<rightarrow> v\<close> when \<open>v\<close> is in the
  neighbour list of \<open>u\<close>. The nodes are the keys and the edge destinations. The
  invariant of the data model asks every destination to be a key.
\<close>

definition edges :: "graph \<Rightarrow> (node \<times> node) set" where
  "edges g = {(u, v). v \<in> set (vizinhos g u)}"

definition node_list :: "graph \<Rightarrow> node list" where
  "node_list g = remdups (concat (map (\<lambda>(k, vs). k # vs) g))"

definition nodes :: "graph \<Rightarrow> node set" where
  "nodes g = set (node_list g)"

definition invariant :: "graph \<Rightarrow> bool" where
  "invariant g = (\<forall>(k, vs) \<in> set g. set vs \<subseteq> set (chaves g))"

definition has_cycle :: "graph \<Rightarrow> bool" where
  "has_cycle g = (\<exists>n. (n, n) \<in> (edges g)\<^sup>+)"

section \<open>Degree analyzer: \<^verbatim>\<open>encontrar_pacotes_criticos\<close>\<close>

type_synonym table = "(node \<times> int) list"

text \<open>\<^verbatim>\<open>in_degree.get(k, 0)\<close>\<close>

definition tget :: "table \<Rightarrow> node \<Rightarrow> int" where
  "tget t k = (case map_of t k of None \<Rightarrow> 0 | Some v \<Rightarrow> v)"

text \<open>\<^verbatim>\<open>in_degree[k] = in_degree.get(k, 0)\<close>\<close>

definition registrar :: "node \<Rightarrow> table \<Rightarrow> table" where
  "registrar k t = dict_set t k (tget t k)"

text \<open>\<^verbatim>\<open>in_degree[k] += 1\<close> on a \<^verbatim>\<open>defaultdict(int)\<close>: a missing key counts from 0.\<close>

definition incrementar :: "node \<Rightarrow> table \<Rightarrow> table" where
  "incrementar k t = dict_set t k (tget t k + 1)"

text \<open>The first loop: every key and every destination enters the table with 0.\<close>

definition inicializar :: "graph \<Rightarrow> table result" where
  "inicializar g =
     for_each (\<lambda>no t. case item g no of
                 Inl e \<Rightarrow> Inl e
               | Inr vs \<Rightarrow> Inr (fold registrar vs (registrar no t)))
       (chaves g) []"

text \<open>The second loop: one increment of the destination for every edge.\<close>

definition contar :: "graph \<Rightarrow> table \<Rightarrow> table result" where
  "contar g t0 =
     for_each (\<lambda>origem t. case item g origem of
                 Inl e \<Rightarrow> Inl e
               | Inr vs \<Rightarrow> Inr (fold incrementar vs t))
       (chaves g) t0"

text \<open>\<^verbatim>\<open>max(xs)\<close>\<close>

fun maximo :: "int list \<Rightarrow> int result" where
  "maximo [] = Inl ValueError"
| "maximo (x # xs) = Inr (fold max xs x)"

definition encontrar_pacotes_criticos :: "graph \<Rightarrow> (node list \<times> int \<times> table) result" where
  "encontrar_pacotes_criticos g =
     (case inicializar g of
        Inl e \<Rightarrow> Inl e
      | Inr t0 \<Rightarrow>
         (case contar g t0 of
            Inl e \<Rightarrow> Inl e
          | Inr in_degree \<Rightarrow>
             if in_degree = [] then Inr ([], 0, [])
             else
               (case maximo (map snd in_degree) of
                  Inl e \<Rightarrow> Inl e
                | Inr max_dependentes \<Rightarrow>
                   Inr ([pacote. (pacote, grau) \<leftarrow> in_degree, grau = max_dependentes],
                        max_dependentes, in_degree))))"

text \<open>The number of edges, a repeated edge counted as often as it is listed.\<close>

definition edge_count :: "graph \<Rightarrow> int" where
  "edge_count g = (\<Sum>(k, vs) \<leftarrow> g. int (length vs))"


definition grau_entrada :: "graph \<Rightarrow> node \<Rightarrow> int" where
  "grau_entrada g n = (\<Sum>(k, vs) \<leftarrow> g. int (count_list vs n))"

section \<open>Reachability queries\<close>

subsection \<open>\<^verbatim>\<open>consultar_dependencias\<close>\<close>

text \<open>
  Every \<^verbatim>\<open>dfs\<close> of the program is a nested recursive function that works on variables
  of the enclosing call. In the model the variables are passed in and returned, and the
  first argument is the number of nested \<^verbatim>\<open>dfs\<close> calls that the interpreter still
  allows: at 0 the call raises \<open>RecursionError\<close>.
\<close>

primrec cd_dfs :: "nat \<Rightarrow> graph \<Rightarrow> node \<Rightarrow> node set \<Rightarrow> node set result" where
  "cd_dfs 0 g no visitado = Inl RecursionError"
| "cd_dfs (Suc limite) g no visitado =
     for_each (\<lambda>vizinho visitado.
                 if vizinho \<notin> visitado
                 then cd_dfs limite g vizinho (insert vizinho visitado)
                 else Inr visitado)
       (vizinhos g no) visitado"

definition consultar_dependencias :: "nat \<Rightarrow> graph \<Rightarrow> node \<Rightarrow> node set result" where
  "consultar_dependencias limite g pacote = cd_dfs limite g pacote {}"

subsection \<open>\<^verbatim>\<open>simular_remocao\<close>\<close>

text \<open>
  \<^verbatim>\<open>grafo_invertido[destino].append(origem)\<close> on a \<^verbatim>\<open>defaultdict(list)\<close>: a missing
  key enters the dictionary with the empty list first.
\<close>

definition anexar :: "node \<Rightarrow> node \<Rightarrow> graph \<Rightarrow> graph" where
  "anexar origem destino invertido =
     dict_set invertido destino (vizinhos invertido destino @ [origem])"

definition inverter :: "graph \<Rightarrow> graph result" where
  "inverter g =
     for_each (\<lambda>origem invertido. case item g origem of
                 Inl e \<Rightarrow> Inl e
               | Inr vs \<Rightarrow> Inr (fold (anexar origem) vs invertido))
       (chaves g) []"

primrec sr_dfs :: "nat \<Rightarrow> graph \<Rightarrow> node \<Rightarrow> node set \<Rightarrow> node set result" where
  "sr_dfs 0 grafo_invertido no afetados = Inl RecursionError"
| "sr_dfs (Suc limite) grafo_invertido no afetados =
     for_each (\<lambda>dependente afetados.
                 if dependente \<notin> afetados
                 then sr_dfs limite grafo_invertido dependente (insert dependente afetados)
                 else Inr afetados)
       (vizinhos grafo_invertido no) afetados"

definition simular_remocao :: "nat \<Rightarrow> graph \<Rightarrow> node \<Rightarrow> node set result" where
  "simular_remocao limite g pacote_removido =
     (case inverter g of
        Inl e \<Rightarrow> Inl e
      | Inr grafo_invertido \<Rightarrow> sr_dfs limite grafo_invertido pacote_removido {})"

section \<open>Topological orderer: \<^verbatim>\<open>ordem_instalacao\<close>\<close>

record oi_state =
  ordem :: "node list"
  oi_visitado :: "node set"

primrec oi_dfs :: "nat \<Rightarrow> graph \<Rightarrow> node \<Rightarrow> oi_state \<Rightarrow> oi_state result" where
  "oi_dfs 0 g no s = Inl RecursionError"
| "oi_dfs (Suc limite) g no s =
     (case for_each (\<lambda>vizinho s.
                       if vizinho \<notin> oi_visitado s then oi_dfs limite g vizinho s else Inr s)
             (vizinhos g no) (s\<lparr>oi_visitado := insert no (oi_visitado s)\<rparr>) of
        Inl e \<Rightarrow> Inl e
      | Inr s' \<Rightarrow> Inr (s'\<lparr>ordem := ordem s' @ [no]\<rparr>))"

definition ordem_instalacao :: "nat \<Rightarrow> graph \<Rightarrow> node list result" where
  "ordem_instalacao limite g =
     (case for_each (\<lambda>no s. if no \<notin> oi_visitado s then oi_dfs limite g no s else Inr s)
             (chaves g) \<lparr>ordem = [], oi_visitado = {}\<rparr> of
        Inl e \<Rightarrow> Inl e
      | Inr s \<Rightarrow> Inr (rev (ordem s)))"

section \<open>Cycle detector: \<^verbatim>\<open>tem_ciclo\<close>\<close>

record tc_state =
  tc_visitado :: "node set"
  recursao :: "node set"

text \<open>
  The loop over the neighbours inside \<^verbatim>\<open>dfs\<close>. The Boolean of the result is \<open>True\<close>
  when the loop was left by \<^verbatim>\<open>return True\<close>.
\<close>

fun tc_loop :: "(node \<Rightarrow> tc_state \<Rightarrow> (bool \<times> tc_state) result) \<Rightarrow> node list \<Rightarrow> tc_state
    \<Rightarrow> (bool \<times> tc_state) result" where
  "tc_loop dfs [] s = Inr (False, s)"
| "tc_loop dfs (vizinho # vs) s =
     (if vizinho \<notin> tc_visitado s then
        (case dfs vizinho s of
           Inl e \<Rightarrow> Inl e
         | Inr (achou, s') \<Rightarrow> if achou then Inr (True, s') else tc_loop dfs vs s')
      else if vizinho \<in> recursao s then Inr (True, s)
      else tc_loop dfs vs s)"

primrec tc_dfs :: "nat \<Rightarrow> graph \<Rightarrow> node \<Rightarrow> tc_state \<Rightarrow> (bool \<times> tc_state) result" where
  "tc_dfs 0 g no s = Inl RecursionError"
| "tc_dfs (Suc limite) g no s =
     (case tc_loop (tc_dfs limite g) (vizinhos g no)
             (s\<lparr>tc_visitado := insert no (tc_visitado s), recursao := insert no (recursao s)\<rparr>) of
        Inl e \<Rightarrow> Inl e
      | Inr (achou, s') \<Rightarrow>
         if achou then Inr (True, s')
         else if no \<in> recursao s' then Inr (False, s'\<lparr>recursao := recursao s' - {no}\<rparr>)
         else Inl KeyError)"

text \<open>The loop over all the nodes of the graph.\<close>

fun tc_nos :: "nat \<Rightarrow> graph \<Rightarrow> node list \<Rightarrow> tc_state \<Rightarrow> bool result" where
  "tc_nos limite g [] s = Inr False"
| "tc_nos limite g (no # nos) s =
     (if no \<notin> tc_visitado s then
        (case tc_dfs limite g no s of
           Inl e \<Rightarrow> Inl e
         | Inr (achou, s') \<Rightarrow> if achou then Inr True else tc_nos limite g nos s')
      else tc_nos limite g nos s)"

definition tem_ciclo :: "nat \<Rightarrow> graph \<Rightarrow> bool result" where
  "tem_ciclo limite g = tc_nos limite g (chaves g) \<lparr>tc_visitado = {}, recursao = {}\<rparr>"

section \<open>Strongly connected components: \<^verbatim>\<open>encontrar_cfc\<close>\<close>

text \<open>
  \<open>pilha\<close> is kept with its top first: \<^verbatim>\<open>pilha.append(no)\<close> is \<open>no # pilha\<close> and
  \<^verbatim>\<open>pilha.pop()\<close> takes the head.
\<close>

record cfc_state =
  index :: int
  indices :: "node \<rightharpoonup> int"
  lowlinks :: "node \<rightharpoonup> int"
  pilha :: "node list"
  na_pilha :: "node set"
  cfc :: "node list list"

text \<open>\<^verbatim>\<open>d[k]\<close> on the dictionaries \<open>indices\<close> and \<open>lowlinks\<close>.\<close>

definition lookup :: "('k \<rightharpoonup> 'v) \<Rightarrow> 'k \<Rightarrow> 'v result" where
  "lookup d k = (case d k of None \<Rightarrow> Inl KeyError | Some v \<Rightarrow> Inr v)"

text \<open>
  The \<^verbatim>\<open>while True\<close> loop that pops the component of the root \<open>no\<close>: returns the
  component, the rest of the stack and the rest of \<open>na_pilha\<close>.
\<close>

fun desempilhar :: "node \<Rightarrow> node list \<Rightarrow> node set \<Rightarrow> node list
    \<Rightarrow> (node list \<times> node list \<times> node set) result" where
  "desempilhar no [] np componente = Inl IndexError"
| "desempilhar no (v # p) np componente =
     (if v \<notin> np then Inl KeyError
      else if v = no then Inr (componente @ [v], p, np - {v})
      else desempilhar no p (np - {v}) (componente @ [v]))"

text \<open>The body of the loop over the neighbours inside \<^verbatim>\<open>dfs\<close>.\<close>

definition cfc_vizinho :: "(node \<Rightarrow> cfc_state \<Rightarrow> cfc_state result) \<Rightarrow> node \<Rightarrow> node
    \<Rightarrow> cfc_state \<Rightarrow> cfc_state result" where
  "cfc_vizinho dfs no vizinho s =
     (if indices s vizinho = None then
        (case dfs vizinho s of
           Inl e \<Rightarrow> Inl e
         | Inr s' \<Rightarrow>
            (case lookup (lowlinks s') no of
               Inl e \<Rightarrow> Inl e
             | Inr l_no \<Rightarrow>
                (case lookup (lowlinks s') vizinho of
                   Inl e \<Rightarrow> Inl e
                 | Inr l_viz \<Rightarrow> Inr (s'\<lparr>lowlinks := (lowlinks s')(no \<mapsto> min l_no l_viz)\<rparr>))))
      else if vizinho \<in> na_pilha s then
        (case lookup (lowlinks s) no of
           Inl e \<Rightarrow> Inl e
         | Inr l_no \<Rightarrow>
            (case lookup (indices s) vizinho of
               Inl e \<Rightarrow> Inl e
             | Inr i_viz \<Rightarrow> Inr (s\<lparr>lowlinks := (lowlinks s)(no \<mapsto> min l_no i_viz)\<rparr>)))
      else Inr s)"

text \<open>The end of \<^verbatim>\<open>dfs\<close>: a root pops its component and keeps it when it has more
  than one member.\<close>

definition cfc_raiz :: "node \<Rightarrow> cfc_state \<Rightarrow> cfc_state result" where
  "cfc_raiz no s =
     (case lookup (lowlinks s) no of
        Inl e \<Rightarrow> Inl e
      | Inr l_no \<Rightarrow>
         (case lookup (indices s) no of
            Inl e \<Rightarrow> Inl e
          | Inr i_no \<Rightarrow>
             if l_no = i_no then
               (case desempilhar no (pilha s) (na_pilha s) [] of
                  Inl e \<Rightarrow> Inl e
                | Inr (componente, p, np) \<Rightarrow>
                   Inr (s\<lparr>pilha := p, na_pilha := np,
                           cfc := (if length componente > 1 then cfc s @ [componente]
                                   else cfc s)\<rparr>))
             else Inr s))"

primrec cfc_dfs :: "nat \<Rightarrow> graph \<Rightarrow> node \<Rightarrow> cfc_state \<Rightarrow> cfc_state result" where
  "cfc_dfs 0 g no s = Inl RecursionError"
| "cfc_dfs (Suc limite) g no s =
     (case for_each (cfc_vizinho (cfc_dfs limite g) no) (vizinhos g no)
             (s\<lparr>indices := (indices s)(no \<mapsto> index s),
                lowlinks := (lowlinks s)(no \<mapsto> index s),
                index := index s + 1,
                pilha := no # pilha s,
                na_pilha := insert no (na_pilha s)\<rparr>) of
        Inl e \<Rightarrow> Inl e
      | Inr s' \<Rightarrow> cfc_raiz no s')"

definition encontrar_cfc :: "nat \<Rightarrow> graph \<Rightarrow> node list list result" where
  "encontrar_cfc limite g =
     (case for_each (\<lambda>no s. if indices s no = None then cfc_dfs limite g no s else Inr s)
             (chaves g)
             \<lparr>index = 0, indices = Map.empty, lowlinks = Map.empty, pilha = [],
              na_pilha = {}, cfc = []\<rparr> of
        Inl e \<Rightarrow> Inl e
      | Inr s \<Rightarrow> Inr (cfc s))"

text \<open>Fixtures: the diamond and the 3-cycle of the specification, and a self-loop.\<close>

definition diamante :: graph where
  "diamante = [(''A'', [''B'', ''C'']), (''B'', [''D'']), (''C'', [''D'']), (''D'', [])]"

definition triangulo :: graph where
  "triangulo = [(''A'', [''B'']), (''B'', [''C'']), (''C'', [''A''])]"

definition laco :: graph where
  "laco = [(''A'', [''A''])]"

definition desconexo :: graph where
  "desconexo = [(''A'', [''B'']), (''B'', []), (''C'', [''D'']), (''D'', [''C''])]"

text \<open>A graph that violates the invariant: the destination is not a key.\<close>

definition incompleto :: graph where
  "incompleto = [(''A'', [''B''])]"


section \<open>Outcomes and specifications\<close>

text \<open>
  \<open>retorna P r\<close>: the outcome \<open>r\<close> is a value that satisfies \<open>P\<close>, or the recursion
  limit was exceeded; no other exception is raised.
\<close>

definition retorna :: "('a \<Rightarrow> bool) \<Rightarrow> 'a result \<Rightarrow> bool" where
  "retorna P r = (case r of Inl e \<Rightarrow> e = RecursionError | Inr x \<Rightarrow> P x)"

definition cd_post :: "graph \<Rightarrow> node \<Rightarrow> node set \<Rightarrow> node set \<Rightarrow> bool" where
  "cd_post g no V V' \<longleftrightarrow>
     V \<subseteq> V' \<and> set (vizinhos g no) \<subseteq> V' \<and>
     (\<forall>x \<in> V' - V. set (vizinhos g x) \<subseteq> V' \<and> (no, x) \<in> (edges g)\<^sup>+)"

definition dentro :: "node set \<Rightarrow> graph \<Rightarrow> bool" where
  "dentro N h \<longleftrightarrow> (\<forall>(k, vs) \<in> set h. k \<in> N \<and> set vs \<subseteq> N)"

text \<open>
  The state of \<open>ordem_instalacao\<close> between two steps: the finished nodes are
  visited, their neighbours are visited, and in an acyclic graph each neighbour of a
  finished node has finished before it.
\<close>

definition oi_inv :: "graph \<Rightarrow> oi_state \<Rightarrow> bool" where
  "oi_inv g s \<longleftrightarrow>
     distinct (ordem s) \<and> set (ordem s) \<subseteq> oi_visitado s \<and> oi_visitado s \<subseteq> nodes g \<and>
     (\<forall>a \<in> set (ordem s). \<forall>b \<in> set (vizinhos g a).
        b \<in> oi_visitado s \<and>
        (\<not> has_cycle g \<longrightarrow> (\<exists>p q r. ordem s = p @ b # q @ a # r)))"

definition oi_pre :: "graph \<Rightarrow> node \<Rightarrow> oi_state \<Rightarrow> bool" where
  "oi_pre g no s \<longleftrightarrow>
     oi_inv g s \<and> no \<in> nodes g \<and> no \<notin> oi_visitado s \<and>
     (\<forall>x \<in> oi_visitado s - set (ordem s). (x, no) \<in> (edges g)\<^sup>+)"

definition oi_post :: "graph \<Rightarrow> node \<Rightarrow> oi_state \<Rightarrow> oi_state \<Rightarrow> bool" where
  "oi_post g no s s' \<longleftrightarrow>
     oi_inv g s' \<and>
     (\<exists>novos. ordem s' = ordem s @ novos @ [no] \<and>
        oi_visitado s' = oi_visitado s \<union> set novos \<union> {no} \<and>
        set novos \<inter> oi_visitado s = {})"

text \<open>
  The state of \<open>tem_ciclo\<close> between two steps. The nodes that are visited and no
  longer on the recursion path are closed under the edges and lie on no cycle.
\<close>

definition tc_inv :: "graph \<Rightarrow> tc_state \<Rightarrow> bool" where
  "tc_inv g s \<longleftrightarrow>
     recursao s \<subseteq> tc_visitado s \<and> tc_visitado s \<subseteq> nodes g \<and>
     (\<forall>b \<in> tc_visitado s - recursao s.
        set (vizinhos g b) \<subseteq> tc_visitado s - recursao s \<and> (b, b) \<notin> (edges g)\<^sup>+)"

definition tc_pre :: "graph \<Rightarrow> node \<Rightarrow> tc_state \<Rightarrow> bool" where
  "tc_pre g no s \<longleftrightarrow>
     tc_inv g s \<and> no \<in> nodes g \<and> no \<notin> tc_visitado s \<and>
     (\<forall>x \<in> recursao s. (x, no) \<in> (edges g)\<^sup>+)"

definition tc_post :: "graph \<Rightarrow> node \<Rightarrow> tc_state \<Rightarrow> bool \<times> tc_state \<Rightarrow> bool" where
  "tc_post g no s r \<longleftrightarrow>
     (if fst r then has_cycle g
      else tc_inv g (snd r) \<and> recursao (snd r) = recursao s \<and>
           tc_visitado s \<subseteq> tc_visitado (snd r) \<and> no \<in> tc_visitado (snd r))"

text \<open>The state inside the loop of \<^verbatim>\<open>dfs(no)\<close>, and what the loop returns.\<close>

definition tc_laco :: "graph \<Rightarrow> node \<Rightarrow> node set \<Rightarrow> tc_state \<Rightarrow> bool" where
  "tc_laco g no R s \<longleftrightarrow>
     tc_inv g s \<and> recursao s = R \<and> (\<forall>x \<in> R. (x, no) \<in> (edges g)\<^sup>*)"

definition tc_laco_post :: "graph \<Rightarrow> node \<Rightarrow> node list \<Rightarrow> tc_state \<Rightarrow> bool \<times> tc_state
    \<Rightarrow> bool" where
  "tc_laco_post g no vs s r \<longleftrightarrow>
     (if fst r then has_cycle g
      else tc_laco g no (recursao s) (snd r) \<and> tc_visitado s \<subseteq> tc_visitado (snd r) \<and>
           set vs \<subseteq> tc_visitado (snd r) - recursao s)"

definition tc_nos_post :: "graph \<Rightarrow> node list \<Rightarrow> bool \<Rightarrow> bool" where
  "tc_nos_post g nos b \<longleftrightarrow>
     (if b then has_cycle g
      else (\<exists>s'. tc_inv g s' \<and> recursao s' = {} \<and> set nos \<subseteq> tc_visitado s'))"

text \<open>
  The state of \<open>encontrar_cfc\<close> between two steps. A component that was emitted has
  at least two members, no member twice, and each member reaches each other.
\<close>

definition componente_ok :: "graph \<Rightarrow> node list \<Rightarrow> bool" where
  "componente_ok g c \<longleftrightarrow>
     1 < length c \<and> distinct c \<and> (\<forall>u \<in> set c. \<forall>v \<in> set c. (u, v) \<in> (edges g)\<^sup>*)"

definition cfc_inv :: "graph \<Rightarrow> cfc_state \<Rightarrow> bool" where
  "cfc_inv g s \<longleftrightarrow>
     distinct (pilha s) \<and> set (pilha s) = na_pilha s \<and> na_pilha s \<subseteq> dom (indices s) \<and>
     dom (indices s) \<subseteq> nodes g \<and> (\<forall>c \<in> set (cfc s). componente_ok g c)"

text \<open>
  From \<open>s\<close> to \<open>s'\<close> the counter does not decrease, the nodes that had an index keep
  their index and their low-link, and a new index is at least the counter of \<open>s\<close>.
\<close>

definition estende :: "cfc_state \<Rightarrow> cfc_state \<Rightarrow> bool" where
  "estende s s' \<longleftrightarrow>
     index s \<le> index s' \<and>
     (\<forall>w. indices s w \<noteq> None \<longrightarrow> indices s' w = indices s w \<and> lowlinks s' w = lowlinks s w) \<and>
     (\<forall>w j. indices s w = None \<longrightarrow> indices s' w = Some j \<longrightarrow> index s \<le> j)"

definition cfc_pre :: "graph \<Rightarrow> node \<Rightarrow> cfc_state \<Rightarrow> bool" where
  "cfc_pre g no s \<longleftrightarrow>
     cfc_inv g s \<and> indices s no = None \<and> no \<in> nodes g \<and>
     (\<forall>w \<in> set (pilha s). (w, no) \<in> (edges g)\<^sup>*)"

text \<open>
  After \<^verbatim>\<open>dfs(no)\<close> the stack is the old one below the nodes \<open>novos\<close>, each of which
  reaches \<open>no\<close> and is reached from it. When \<open>no\<close> stays on the stack, its low-link is
  the index of a node of the old stack that \<open>no\<close> reaches.
\<close>

definition cfc_post :: "graph \<Rightarrow> node \<Rightarrow> cfc_state \<Rightarrow> cfc_state \<Rightarrow> bool" where
  "cfc_post g no s s' \<longleftrightarrow>
     cfc_inv g s' \<and> estende s s' \<and> indices s' no \<noteq> None \<and>
     (\<exists>novos l. pilha s' = novos @ pilha s \<and>
        (\<forall>w \<in> set novos. (no, w) \<in> (edges g)\<^sup>* \<and> (w, no) \<in> (edges g)\<^sup>* \<and> indices s w = None) \<and>
        lowlinks s' no = Some l \<and>
        (if novos = [] then index s \<le> l
         else (\<exists>x \<in> set (pilha s). indices s' x = Some l \<and> (no, x) \<in> (edges g)\<^sup>*)))"

text \<open>The state inside the loop of \<^verbatim>\<open>dfs(no)\<close> that was entered in the state \<open>s\<close>.\<close>

definition cfc_laco :: "graph \<Rightarrow> node \<Rightarrow> cfc_state \<Rightarrow> cfc_state \<Rightarrow> bool" where
  "cfc_laco g no s s1 \<longleftrightarrow>
     cfc_inv g s1 \<and> estende s s1 \<and> indices s no = None \<and>
     indices s1 no = Some (index s) \<and> index s < index s1 \<and>
     (\<exists>acima. pilha s1 = acima @ no # pilha s \<and>
        (\<forall>w \<in> set acima. (no, w) \<in> (edges g)\<^sup>* \<and> indices s w = None \<and>
           (\<exists>j. indices s1 w = Some j \<and> index s < j))) \<and>
     (\<forall>w \<in> set (pilha s1). (w, no) \<in> (edges g)\<^sup>*) \<and>
     (\<exists>l x. lowlinks s1 no = Some l \<and> l \<le> index s \<and> x \<in> set (pilha s1) \<and>
        indices s1 x = Some l \<and> (no, x) \<in> (edges g)\<^sup>*)"


section \<open>Lemmas on dictionaries and loops\<close>

lemma item_chave:
  "no \<in> set (chaves g) \<Longrightarrow> \<exists>vs. item g no = Inr vs \<and> map_of g no = Some vs"
  unfolding item_def chaves_def
  by (cases "map_of g no") (auto simp: map_of_eq_None_iff)

lemma dict_set_nonempty: "dict_set d k v \<noteq> []"
  by (cases d) (auto split: if_splits)

lemma sum_dict_set:
  "sum_list (map snd (dict_set t k v)) = sum_list (map snd t) - tget t k + v"
proof (induction t)
  case Nil
  show ?case by (simp add: tget_def)
next
  case (Cons p t)
  obtain k' v' where p: "p = (k', v')" by (cases p)
  show ?case
  proof (cases "k' = k")
    case True
    then show ?thesis using p by (simp add: tget_def)
  next
    case False
    then show ?thesis using p Cons.IH by (simp add: tget_def)
  qed
qed

lemma sum_registrar: "sum_list (map snd (registrar k t)) = sum_list (map snd t)"
  by (simp add: registrar_def sum_dict_set)

lemma sum_incrementar: "sum_list (map snd (incrementar k t)) = sum_list (map snd t) + 1"
  by (simp add: incrementar_def sum_dict_set)

lemma sum_fold_registrar:
  "sum_list (map snd (fold registrar vs t)) = sum_list (map snd t)"
  by (induction vs arbitrary: t) (simp_all add: sum_registrar)

lemma sum_fold_incrementar:
  "sum_list (map snd (fold incrementar vs t)) = sum_list (map snd t) + int (length vs)"
  by (induction vs arbitrary: t) (simp_all add: sum_incrementar)

lemma fold_registrar_nonempty: "t \<noteq> [] \<Longrightarrow> fold registrar vs t \<noteq> []"
  by (induction vs arbitrary: t) (simp_all add: registrar_def dict_set_nonempty)

lemma fold_incrementar_nonempty: "t \<noteq> [] \<Longrightarrow> fold incrementar vs t \<noteq> []"
  by (induction vs arbitrary: t) (simp_all add: incrementar_def dict_set_nonempty)


section \<open>The in-degree table\<close>

lemma for_each_item:
  "set ks \<subseteq> set (chaves g) \<Longrightarrow>
   for_each (\<lambda>no t. case item g no of Inl e \<Rightarrow> Inl e | Inr vs \<Rightarrow> Inr (f vs no t)) ks t
     = Inr (fold (\<lambda>no. f (vizinhos g no) no) ks t)"
proof (induction ks arbitrary: t)
  case Nil
  show ?case by simp
next
  case (Cons k ks)
  from Cons.prems obtain vs where "item g k = Inr vs" "map_of g k = Some vs"
    using item_chave [of k g] by auto
  then show ?case using Cons by (simp add: vizinhos_def)
qed

lemma inicializar_eq:
  "inicializar g = Inr (fold (\<lambda>no t. fold registrar (vizinhos g no) (registrar no t)) (chaves g) [])"
  unfolding inicializar_def
  using for_each_item [of "chaves g" g "\<lambda>vs no t. fold registrar vs (registrar no t)" "[]"]
  by simp

lemma contar_eq:
  "contar g t0 = Inr (fold (\<lambda>no t. fold incrementar (vizinhos g no) t) (chaves g) t0)"
  unfolding contar_def
  using for_each_item [of "chaves g" g "\<lambda>vs no t. fold incrementar vs t" t0]
  by simp

lemma sum_fold_inicializar:
  "sum_list (map snd (fold (\<lambda>no t. fold registrar (vizinhos g no) (registrar no t)) ks t))
     = sum_list (map snd t)"
  by (induction ks arbitrary: t) (simp_all add: sum_fold_registrar sum_registrar)

lemma sum_fold_contar:
  "sum_list (map snd (fold (\<lambda>no t. fold incrementar (vizinhos g no) t) ks t))
     = sum_list (map snd t) + (\<Sum>no \<leftarrow> ks. int (length (vizinhos g no)))"
  by (induction ks arbitrary: t) (simp_all add: sum_fold_incrementar)

lemma vizinhos_entry: "is_dict g \<Longrightarrow> (k, vs) \<in> set g \<Longrightarrow> vizinhos g k = vs"
  by (simp add: is_dict_def vizinhos_def)

lemma edge_count_vizinhos:
  assumes "is_dict g"
  shows "(\<Sum>no \<leftarrow> chaves g. int (length (vizinhos g no))) = edge_count g"
proof -
  have "map (\<lambda>no. int (length (vizinhos g no))) (map fst g) = map (\<lambda>(k, vs). int (length vs)) g"
    using vizinhos_entry [OF assms] by (auto simp: map_eq_conv)
  then have "sum_list (map (\<lambda>no. int (length (vizinhos g no))) (map fst g))
      = sum_list (map (\<lambda>(k, vs). int (length vs)) g)"
    by (rule arg_cong)
  then show ?thesis by (simp only: chaves_def edge_count_def)
qed

lemma nonempty_fold_inicializar:
  "ks \<noteq> [] \<or> t \<noteq> [] \<Longrightarrow>
   fold (\<lambda>no t. fold registrar (vizinhos g no) (registrar no t)) ks t \<noteq> []"
proof (induction ks arbitrary: t)
  case Nil
  then show ?case by simp
next
  case (Cons k ks)
  have "fold registrar (vizinhos g k) (registrar k t) \<noteq> []"
    by (rule fold_registrar_nonempty) (simp add: registrar_def dict_set_nonempty)
  then show ?case using Cons.IH by simp
qed

lemma nonempty_fold_contar:
  "t \<noteq> [] \<Longrightarrow> fold (\<lambda>no t. fold incrementar (vizinhos g no) t) ks t \<noteq> []"
  by (induction ks arbitrary: t) (simp_all add: fold_incrementar_nonempty)

lemma maximo_Max:
  assumes "(xs::int list) \<noteq> []"
  shows "maximo xs = Inr (Max (set xs))"
proof (cases xs)
  case Nil
  then show ?thesis using assms by simp
next
  case (Cons x ys)
  have "Max (set (x # ys)) = fold max ys x" by (rule Max.set_eq_fold)
  then show ?thesis using Cons by simp
qed

lemma criticos_filter:
  "[pacote. (pacote, grau) \<leftarrow> t, grau = m] = map fst (filter (\<lambda>(p, d). d = m) t)"
  by (induction t) auto

lemma filter_Max_nonempty:
  fixes t :: table
  assumes "t \<noteq> []"
  shows "filter (\<lambda>(p, d). d = Max (set (map snd t))) t \<noteq> []"
proof -
  have "Max (set (map snd t)) \<in> set (map snd t)"
    using assms by (intro Max_in) auto
  then obtain p where "(p, Max (set (map snd t))) \<in> set t" by auto
  then show ?thesis by (auto simp: filter_empty_conv)
qed



lemma map_of_dict_set: "map_of (dict_set t k v) = (map_of t)(k \<mapsto> v)"
  by (induction t) (auto simp: fun_eq_iff)

lemma keys_dict_set: "fst ` set (dict_set t k v) = insert k (fst ` set t)"
proof (induction t)
  case Nil
  show ?case by simp
next
  case (Cons p t)
  obtain k' v' where p: "p = (k', v')" by (cases p)
  show ?case using Cons.IH by (cases "k' = k") (simp_all add: p insert_commute)
qed

lemma is_dict_dict_set: "is_dict t \<Longrightarrow> is_dict (dict_set t k v)"
  unfolding is_dict_def
proof (induction t)
  case Nil
  show ?case by simp
next
  case (Cons p t)
  obtain k' v' where p: "p = (k', v')" by (cases p)
  show ?case
  proof (cases "k' = k")
    case True
    then show ?thesis using Cons.prems p by simp
  next
    case False
    have "k' \<notin> fst ` set (dict_set t k v)"
      using False Cons.prems p by (simp add: keys_dict_set)
    moreover have "distinct (map fst (dict_set t k v))"
      using Cons.IH Cons.prems by simp
    ultimately show ?thesis using False p by simp
  qed
qed

lemma tget_dict_set: "tget (dict_set t k v) n = (if n = k then v else tget t n)"
  by (simp add: tget_def map_of_dict_set)

lemma tget_registrar: "tget (registrar k t) n = tget t n"
  by (simp add: registrar_def tget_dict_set)

lemma tget_incrementar: "tget (incrementar k t) n = tget t n + (if n = k then 1 else 0)"
  by (simp add: incrementar_def tget_dict_set)

lemma keys_registrar: "fst ` set (registrar k t) = insert k (fst ` set t)"
  by (simp add: registrar_def keys_dict_set)

lemma keys_incrementar: "fst ` set (incrementar k t) = insert k (fst ` set t)"
  by (simp add: incrementar_def keys_dict_set)

lemma fold_registrar_props:
  "tget (fold registrar vs t) n = tget t n \<and>
   fst ` set (fold registrar vs t) = set vs \<union> fst ` set t \<and>
   (is_dict t \<longrightarrow> is_dict (fold registrar vs t))"
proof (induction vs arbitrary: t)
  case Nil
  show ?case by simp
next
  case (Cons v vs)
  have "is_dict t \<longrightarrow> is_dict (registrar v t)"
    by (simp add: registrar_def is_dict_dict_set)
  then show ?case
    using Cons.IH [of "registrar v t"] by (auto simp: tget_registrar keys_registrar)
qed

lemma fold_incrementar_props:
  "tget (fold incrementar vs t) n = tget t n + int (count_list vs n) \<and>
   fst ` set (fold incrementar vs t) = set vs \<union> fst ` set t \<and>
   (is_dict t \<longrightarrow> is_dict (fold incrementar vs t))"
proof (induction vs arbitrary: t)
  case Nil
  show ?case by simp
next
  case (Cons v vs)
  have "is_dict t \<longrightarrow> is_dict (incrementar v t)"
    by (simp add: incrementar_def is_dict_dict_set)
  then show ?case
    using Cons.IH [of "incrementar v t"] by (auto simp: tget_incrementar keys_incrementar)
qed

lemma fold_inicializar_props:
  "tget (fold (\<lambda>no t. fold registrar (vizinhos g no) (registrar no t)) ks t) n = tget t n \<and>
   fst ` set (fold (\<lambda>no t. fold registrar (vizinhos g no) (registrar no t)) ks t)
     = set ks \<union> (\<Union>no \<in> set ks. set (vizinhos g no)) \<union> fst ` set t \<and>
   (is_dict t \<longrightarrow> is_dict (fold (\<lambda>no t. fold registrar (vizinhos g no) (registrar no t)) ks t))"
proof (induction ks arbitrary: t)
  case Nil
  show ?case by simp
next
  case (Cons k ks)
  let ?t = "fold registrar (vizinhos g k) (registrar k t)"
  have 1: "tget ?t n = tget t n"
    using fold_registrar_props [of "vizinhos g k" "registrar k t" n] by (simp add: tget_registrar)
  have 2: "fst ` set ?t = insert k (set (vizinhos g k)) \<union> fst ` set t"
    using fold_registrar_props [of "vizinhos g k" "registrar k t" n] by (simp add: keys_registrar)
  have 3: "is_dict t \<longrightarrow> is_dict ?t"
    using fold_registrar_props [of "vizinhos g k" "registrar k t" n]
    by (simp add: registrar_def is_dict_dict_set)
  show ?case using Cons.IH [of ?t] 1 2 3 by auto
qed

lemma fold_contar_props:
  "tget (fold (\<lambda>no t. fold incrementar (vizinhos g no) t) ks t) n
     = tget t n + (\<Sum>no \<leftarrow> ks. int (count_list (vizinhos g no) n)) \<and>
   fst ` set (fold (\<lambda>no t. fold incrementar (vizinhos g no) t) ks t)
     = (\<Union>no \<in> set ks. set (vizinhos g no)) \<union> fst ` set t \<and>
   (is_dict t \<longrightarrow> is_dict (fold (\<lambda>no t. fold incrementar (vizinhos g no) t) ks t))"
proof (induction ks arbitrary: t)
  case Nil
  show ?case by simp
next
  case (Cons k ks)
  let ?t = "fold incrementar (vizinhos g k) t"
  note p = fold_incrementar_props [of "vizinhos g k" t n]
  show ?case using Cons.IH [of ?t] p by auto
qed

lemma grau_entrada_vizinhos:
  assumes "is_dict g"
  shows "(\<Sum>no \<leftarrow> chaves g. int (count_list (vizinhos g no) n)) = grau_entrada g n"
proof -
  have "map (\<lambda>no. int (count_list (vizinhos g no) n)) (map fst g)
      = map (\<lambda>(k, vs). int (count_list vs n)) g"
    using vizinhos_entry [OF assms] by (auto simp: map_eq_conv)
  then have "sum_list (map (\<lambda>no. int (count_list (vizinhos g no) n)) (map fst g))
      = sum_list (map (\<lambda>(k, vs). int (count_list vs n)) g)"
    by (rule arg_cong)
  then show ?thesis by (simp only: chaves_def grau_entrada_def)
qed

lemma nodes_vizinhos:
  assumes "is_dict g"
  shows "set (chaves g) \<union> (\<Union>no \<in> set (chaves g). set (vizinhos g no)) = nodes g"
proof -
  have "\<And>k vs. (k, vs) \<in> set g \<Longrightarrow> vizinhos g k = vs"
    using vizinhos_entry [OF assms] by simp
  then show ?thesis
    unfolding nodes_def node_list_def chaves_def by force
qed

lemma criticos_table:
  assumes "is_dict g"
  shows "\<exists>t. contar g (fold (\<lambda>no t. fold registrar (vizinhos g no) (registrar no t)) (chaves g) [])
            = Inr t \<and> inicializar g = Inr (fold (\<lambda>no t. fold registrar (vizinhos g no) (registrar no t)) (chaves g) [])
     \<and> is_dict t \<and> fst ` set t = nodes g \<and> (\<forall>n. tget t n = grau_entrada g n)
     \<and> sum_list (map snd t) = edge_count g \<and> (g \<noteq> [] \<longrightarrow> t \<noteq> [])"
proof -
  let ?ini = "fold (\<lambda>no t. fold registrar (vizinhos g no) (registrar no t)) (chaves g) []"
  let ?fin = "fold (\<lambda>no t. fold incrementar (vizinhos g no) t) (chaves g) ?ini"
  have d0: "is_dict ?ini"
    using fold_inicializar_props [of g "chaves g" "[]" undefined] by (simp add: is_dict_def)
  have k0: "fst ` set ?ini = nodes g"
    using fold_inicializar_props [of g "chaves g" "[]" undefined] nodes_vizinhos [OF assms]
    by simp
  have g0: "tget ?ini n = 0" for n
    using fold_inicializar_props [of g "chaves g" "[]" n] by (simp add: tget_def)
  have s0: "sum_list (map snd ?ini) = 0"
    using sum_fold_inicializar [of g "chaves g" "[]"] by simp
  have d: "is_dict ?fin" using fold_contar_props [of g "chaves g" ?ini undefined] d0 by simp
  have k: "fst ` set ?fin = nodes g"
    using fold_contar_props [of g "chaves g" ?ini undefined] k0 nodes_vizinhos [OF assms] by auto
  have v: "tget ?fin n = grau_entrada g n" for n
    using fold_contar_props [of g "chaves g" ?ini n] g0 grau_entrada_vizinhos [OF assms] by simp
  have s: "sum_list (map snd ?fin) = edge_count g"
    using sum_fold_contar [of g "chaves g" ?ini] s0 edge_count_vizinhos [OF assms] by simp
  have ne: "g \<noteq> [] \<longrightarrow> ?fin \<noteq> []"
    using nonempty_fold_inicializar [of "chaves g" "[]" g] nonempty_fold_contar [of ?ini g "chaves g"]
    by (simp add: chaves_def)
  show ?thesis using d k v s ne by (simp add: contar_eq inicializar_eq)
qed

lemma criticos_total: "\<exists>r. encontrar_pacotes_criticos g = Inr r"
proof -
  obtain t0 where t0: "inicializar g = Inr t0" using inicializar_eq by blast
  obtain t where t: "contar g t0 = Inr t" using contar_eq by blast
  show ?thesis
  proof (cases "t = []")
    case True
    then show ?thesis using t0 t by (simp add: encontrar_pacotes_criticos_def)
  next
    case False
    then have "maximo (map snd t) = Inr (Max (set (map snd t)))" by (simp add: maximo_Max)
    then show ?thesis using t0 t False by (simp add: encontrar_pacotes_criticos_def)
  qed
qed


section \<open>Loops and outcomes\<close>

lemma retorna_Inr [simp]: "retorna P (Inr x) = P x"
  by (simp add: retorna_def)

lemma retorna_Inl [simp]: "retorna P (Inl e) = (e = RecursionError)"
  by (simp add: retorna_def)

lemma retorna_mono: "retorna P r \<Longrightarrow> (\<And>x. P x \<Longrightarrow> Q x) \<Longrightarrow> retorna Q r"
  by (cases r) auto

lemma retorna_cases:
  assumes "retorna P r"
  obtains "r = Inl RecursionError" | x where "r = Inr x" and "P x"
  using assms by (cases r) auto

lemma for_each_retorna:
  assumes "I [] s"
    and "\<And>pre x suf s. xs = pre @ x # suf \<Longrightarrow> I pre s \<Longrightarrow> retorna (I (pre @ [x])) (body x s)"
  shows "retorna (I xs) (for_each body xs s)"
  using assms
proof (induction xs arbitrary: s I)
  case Nil
  then show ?case by simp
next
  case (Cons x xs)
  have b: "retorna (I [x]) (body x s)"
    using Cons.prems(2) [of "[]" x xs s] Cons.prems(1) by simp
  show ?case
  proof (cases "body x s")
    case (Inl e)
    then show ?thesis using b by simp
  next
    case (Inr s1)
    have "retorna (I (x # xs)) (for_each body xs s1)"
    proof (rule Cons.IH [where I = "\<lambda>pre. I (x # pre)"])
      show "I [x] s1" using b Inr by simp
    next
      fix pre y suf t
      assume "xs = pre @ y # suf" and "I (x # pre) t"
      then show "retorna (I (x # pre @ [y])) (body y t)"
        using Cons.prems(2) [of "x # pre" y suf t] by simp
    qed
    then show ?thesis using Inr by simp
  qed
qed

lemma for_each_total:
  assumes "I [] s"
    and "\<And>pre x suf s. xs = pre @ x # suf \<Longrightarrow> I pre s
           \<Longrightarrow> \<exists>s1. body x s = Inr s1 \<and> I (pre @ [x]) s1"
  shows "\<exists>s'. for_each body xs s = Inr s' \<and> I xs s'"
  using assms
proof (induction xs arbitrary: s I)
  case Nil
  then show ?case by simp
next
  case (Cons x xs)
  from Cons.prems(2) [of "[]" x xs s] Cons.prems(1)
  obtain s1 where s1: "body x s = Inr s1" "I [x] s1" by auto
  have "\<exists>s'. for_each body xs s1 = Inr s' \<and> I (x # xs) s'"
  proof (rule Cons.IH [where I = "\<lambda>pre. I (x # pre)"])
    show "I [x] s1" by (rule s1(2))
  next
    fix pre y suf t
    assume "xs = pre @ y # suf" and "I (x # pre) t"
    then show "\<exists>s1. body y t = Inr s1 \<and> I (x # pre @ [y]) s1"
      using Cons.prems(2) [of "x # pre" y suf t] by simp
  qed
  then show ?case using s1(1) by simp
qed

section \<open>Facts about the edge relation\<close>

lemma vizinhos_nodes:
  assumes "v \<in> set (vizinhos g u)"
  shows "v \<in> nodes g" and "u \<in> set (chaves g)" and "u \<in> nodes g"
proof -
  from assms obtain vs where vs: "map_of g u = Some vs" "v \<in> set vs"
    by (cases "map_of g u") (auto simp: vizinhos_def)
  then have "(u, vs) \<in> set g" by (auto dest: map_of_SomeD)
  then show "v \<in> nodes g" and "u \<in> set (chaves g)" and "u \<in> nodes g"
    using vs(2) unfolding nodes_def node_list_def chaves_def by force+
qed

lemma chaves_nodes: "set (chaves g) \<subseteq> nodes g"
  unfolding nodes_def node_list_def chaves_def by force

lemma finite_nodes: "finite (nodes g)"
  by (simp add: nodes_def)

lemma card_nodes: "card (nodes g) = length (node_list g)"
  unfolding nodes_def node_list_def by (rule distinct_card) simp

lemma edges_iff: "(u, v) \<in> edges g \<longleftrightarrow> v \<in> set (vizinhos g u)"
  by (simp add: edges_def)

lemma edges_nodes: "(u, v) \<in> (edges g)\<^sup>+ \<Longrightarrow> u \<in> set (chaves g) \<and> v \<in> nodes g"
  by (induction rule: trancl_induct) (auto simp: edges_iff dest: vizinhos_nodes)

lemma alcance_fechado:
  assumes "set (vizinhos g n) \<subseteq> S" and "\<And>x. x \<in> S \<Longrightarrow> set (vizinhos g x) \<subseteq> S"
    and "(n, m) \<in> (edges g)\<^sup>+"
  shows "m \<in> S"
  using assms(3)
proof (induction rule: trancl_induct)
  case (base y)
  then show ?case using assms(1) by (auto simp: edges_iff)
next
  case (step y z)
  then show ?case using assms(2) [of y] by (auto simp: edges_iff)
qed

section \<open>Forward reachability\<close>

lemma cd_dfs_retorna: "retorna (cd_post g no V) (cd_dfs limite g no V)"
proof (induction limite arbitrary: no V)
  case 0
  show ?case by simp
next
  case (Suc limite)
  let ?body = "\<lambda>vizinho visitado. if vizinho \<notin> visitado
                 then cd_dfs limite g vizinho (insert vizinho visitado) else Inr visitado"
  let ?I = "\<lambda>pre V'. V \<subseteq> V' \<and> set pre \<subseteq> V' \<and>
     (\<forall>x \<in> V' - V. set (vizinhos g x) \<subseteq> V' \<and> (no, x) \<in> (edges g)\<^sup>+)"
  have "retorna (?I (vizinhos g no)) (for_each ?body (vizinhos g no) V)"
  proof (rule for_each_retorna)
    show "?I [] V" by simp
  next
    fix pre v suf V1
    assume xs: "vizinhos g no = pre @ v # suf" and I: "?I pre V1"
    have e: "(no, v) \<in> edges g" using xs by (simp add: edges_iff)
    show "retorna (?I (pre @ [v])) (?body v V1)"
    proof (cases "v \<in> V1")
      case True
      then show ?thesis using I by simp
    next
      case False
      have "retorna (cd_post g v (insert v V1)) (cd_dfs limite g v (insert v V1))"
        by (rule Suc.IH)
      then have "retorna (?I (pre @ [v])) (cd_dfs limite g v (insert v V1))"
      proof (rule retorna_mono)
        fix V2
        assume p: "cd_post g v (insert v V1) V2"
        have "set (vizinhos g x) \<subseteq> V2 \<and> (no, x) \<in> (edges g)\<^sup>+" if "x \<in> V2 - V" for x
        proof (cases "x = v")
          case True
          then show ?thesis using p e by (auto simp: cd_post_def)
        next
          case nv: False
          show ?thesis
          proof (cases "x \<in> V1")
            case True
            then have "set (vizinhos g x) \<subseteq> V1 \<and> (no, x) \<in> (edges g)\<^sup>+"
              using I that by simp
            moreover have "V1 \<subseteq> V2" using p by (auto simp: cd_post_def)
            ultimately show ?thesis by blast
          next
            case False
            then have "set (vizinhos g x) \<subseteq> V2 \<and> (v, x) \<in> (edges g)\<^sup>+"
              using p nv that by (auto simp: cd_post_def)
            then show ?thesis using e by (auto intro: trancl_into_trancl2)
          qed
        qed
        then show "?I (pre @ [v]) V2" using I p by (auto simp: cd_post_def)
      qed
      then show ?thesis using False by simp
    qed
  qed
  then show ?case by (auto simp: cd_post_def elim: retorna_mono)
qed

lemma cd_dfs_total:
  "card (nodes g - V) < limite \<Longrightarrow> \<exists>V'. cd_dfs limite g no V = Inr V'"
proof (induction limite arbitrary: no V)
  case 0
  then show ?case by simp
next
  case (Suc limite)
  let ?body = "\<lambda>vizinho visitado. if vizinho \<notin> visitado
                 then cd_dfs limite g vizinho (insert vizinho visitado) else Inr visitado"
  have "\<exists>V'. for_each ?body (vizinhos g no) V = Inr V' \<and> V \<subseteq> V'"
  proof (rule for_each_total [where I = "\<lambda>pre V'. V \<subseteq> V'"])
    show "V \<subseteq> V" by simp
  next
    fix pre v suf V1
    assume xs: "vizinhos g no = pre @ v # suf" and I: "V \<subseteq> V1"
    show "\<exists>V2. ?body v V1 = Inr V2 \<and> V \<subseteq> V2"
    proof (cases "v \<in> V1")
      case True
      then show ?thesis using I by simp
    next
      case False
      have "v \<in> nodes g" using xs vizinhos_nodes(1) [of v g no] by simp
      then have "card (nodes g - insert v V1) < card (nodes g - V1)"
        using False finite_nodes [of g] by (intro psubset_card_mono) auto
      moreover have "card (nodes g - V1) \<le> card (nodes g - V)"
        using I finite_nodes [of g] by (intro card_mono) auto
      ultimately have "card (nodes g - insert v V1) < limite" using Suc.prems by simp
      then obtain V2 where V2: "cd_dfs limite g v (insert v V1) = Inr V2"
        using Suc.IH by blast
      have "cd_post g v (insert v V1) V2"
        using cd_dfs_retorna [of g v "insert v V1" limite] V2 by simp
      then show ?thesis using V2 False I by (auto simp: cd_post_def)
    qed
  qed
  then show ?case by auto
qed

lemma cd_dfs_alcance:
  assumes "cd_dfs limite g n {} = Inr V"
  shows "V = {m. (n, m) \<in> (edges g)\<^sup>+}"
proof -
  have p: "cd_post g n {} V" using cd_dfs_retorna [of g n "{}" limite] assms by simp
  have "m \<in> V" if "(n, m) \<in> (edges g)\<^sup>+" for m
    using that p by (intro alcance_fechado [of g n V m]) (auto simp: cd_post_def)
  then show ?thesis using p by (auto simp: cd_post_def)
qed

lemma cd_dfs_limite:
  assumes "length (node_list g) < limite"
  shows "\<exists>V. cd_dfs limite g n {} = Inr V"
proof -
  have "card (nodes g - {}) < limite" using assms by (simp add: card_nodes)
  then show ?thesis by (rule cd_dfs_total)
qed



section \<open>Reverse reachability\<close>

lemma sr_dfs_cd_dfs: "sr_dfs limite h no V = cd_dfs limite h no V"
  by (induction limite arbitrary: no V) (simp_all cong: if_cong)

lemma vizinhos_dict_set:
  "vizinhos (dict_set h k vs) x = (if x = k then vs else vizinhos h x)"
  by (simp add: vizinhos_def map_of_dict_set)

lemma set_dict_set: "set (dict_set t k v) \<subseteq> insert (k, v) (set t)"
  by (induction t) (auto split: if_splits)

lemma vizinhos_anexar:
  "set (vizinhos (anexar origem destino h) x)
     = set (vizinhos h x) \<union> (if x = destino then {origem} else {})"
  by (simp add: anexar_def vizinhos_dict_set)

lemma vizinhos_fold_anexar:
  "set (vizinhos (fold (anexar origem) vs h) x)
     = set (vizinhos h x) \<union> (if x \<in> set vs then {origem} else {})"
  by (induction vs arbitrary: h) (auto simp: vizinhos_anexar)

lemma vizinhos_fold_inverter:
  "set (vizinhos (fold (\<lambda>origem. fold (anexar origem) (vizinhos g origem)) ks h) x)
     = set (vizinhos h x) \<union> {origem \<in> set ks. x \<in> set (vizinhos g origem)}"
  by (induction ks arbitrary: h) (auto simp: vizinhos_fold_anexar)

lemma dentro_nodes: "dentro N h \<Longrightarrow> nodes h \<subseteq> N"
  unfolding dentro_def nodes_def node_list_def by auto

lemma dentro_vizinhos: "dentro N h \<Longrightarrow> set (vizinhos h x) \<subseteq> N"
proof (cases "map_of h x")
  case None
  then show ?thesis by (simp add: vizinhos_def)
next
  case (Some vs)
  assume d: "dentro N h"
  have "(x, vs) \<in> set h" using Some by (rule map_of_SomeD)
  then show ?thesis using d Some by (auto simp: vizinhos_def dentro_def)
qed

lemma dentro_anexar:
  assumes "dentro N h" and "origem \<in> N" and "destino \<in> N"
  shows "dentro N (anexar origem destino h)"
proof -
  have "set (vizinhos h destino @ [origem]) \<subseteq> N"
    using dentro_vizinhos [OF assms(1), of destino] assms(2) by simp
  then show ?thesis
    using assms(1,3) set_dict_set [of h destino "vizinhos h destino @ [origem]"]
    unfolding dentro_def anexar_def by blast
qed

lemma dentro_fold_anexar:
  "dentro N h \<Longrightarrow> origem \<in> N \<Longrightarrow> set vs \<subseteq> N \<Longrightarrow> dentro N (fold (anexar origem) vs h)"
  by (induction vs arbitrary: h) (simp_all add: dentro_anexar)

lemma dentro_fold_inverter:
  "dentro (nodes g) h \<Longrightarrow> set ks \<subseteq> nodes g
   \<Longrightarrow> dentro (nodes g) (fold (\<lambda>origem. fold (anexar origem) (vizinhos g origem)) ks h)"
proof (induction ks arbitrary: h)
  case Nil
  then show ?case by simp
next
  case (Cons k ks)
  have "set (vizinhos g k) \<subseteq> nodes g" using vizinhos_nodes(1) [of _ g k] by blast
  then have "dentro (nodes g) (fold (anexar k) (vizinhos g k) h)"
    using Cons.prems by (intro dentro_fold_anexar) auto
  then show ?case using Cons by simp
qed

lemma inverter_props:
  "\<exists>h. inverter g = Inr h \<and> edges h = (edges g)\<inverse> \<and> nodes h \<subseteq> nodes g"
proof -
  let ?h = "fold (\<lambda>origem. fold (anexar origem) (vizinhos g origem)) (chaves g) []"
  have 1: "inverter g = Inr ?h"
    unfolding inverter_def
    using for_each_item [of "chaves g" g "\<lambda>vs origem. fold (anexar origem) vs" "[]"] by simp
  have "set (vizinhos ?h x) = {origem. x \<in> set (vizinhos g origem)}" for x
    using vizinhos_fold_inverter [of g "chaves g" "[]" x] vizinhos_nodes(2) [of x g]
    by (auto simp: vizinhos_def)
  then have 2: "edges ?h = (edges g)\<inverse>" by (auto simp: edges_def)
  have "dentro (nodes g) ?h"
    using chaves_nodes [of g] by (intro dentro_fold_inverter) (simp_all add: dentro_def)
  then have 3: "nodes ?h \<subseteq> nodes g" by (rule dentro_nodes)
  show ?thesis using 1 2 3 by blast
qed

lemma vizinhos_ausente: "n \<notin> nodes g \<Longrightarrow> vizinhos g n = []"
proof -
  assume "n \<notin> nodes g"
  then have "n \<notin> set (chaves g)" using chaves_nodes by blast
  then have "map_of g n = None" by (simp add: chaves_def map_of_eq_None_iff)
  then show ?thesis by (simp add: vizinhos_def)
qed



section \<open>The depth-first walk of the topological orderer\<close>

lemma oi_dfs_mono:
  "retorna (\<lambda>s'. oi_visitado s \<subseteq> oi_visitado s') (oi_dfs limite g no s)"
proof (induction limite arbitrary: no s)
  case 0
  show ?case by simp
next
  case (Suc limite)
  let ?body = "\<lambda>vizinho s. if vizinho \<notin> oi_visitado s then oi_dfs limite g vizinho s else Inr s"
  let ?s0 = "s\<lparr>oi_visitado := insert no (oi_visitado s)\<rparr>"
  have "retorna (\<lambda>s'. oi_visitado s \<subseteq> oi_visitado s') (for_each ?body (vizinhos g no) ?s0)"
  proof (rule for_each_retorna [where I = "\<lambda>pre s'. oi_visitado s \<subseteq> oi_visitado s'"])
    show "oi_visitado s \<subseteq> oi_visitado ?s0" by auto
  next
    fix pre v suf and s1 :: oi_state
    assume I: "oi_visitado s \<subseteq> oi_visitado s1"
    have "retorna (\<lambda>s'. oi_visitado s1 \<subseteq> oi_visitado s') (oi_dfs limite g v s1)"
      by (rule Suc.IH)
    then have "retorna (\<lambda>s'. oi_visitado s \<subseteq> oi_visitado s') (oi_dfs limite g v s1)"
      by (rule retorna_mono) (use I in auto)
    then show "retorna (\<lambda>s'. oi_visitado s \<subseteq> oi_visitado s') (?body v s1)"
      using I by simp
  qed
  then show ?case
    by (cases "for_each ?body (vizinhos g no) ?s0") simp_all
qed

lemma oi_dfs_total:
  "no \<in> nodes g \<Longrightarrow> no \<notin> oi_visitado s \<Longrightarrow> card (nodes g - oi_visitado s) \<le> limite
   \<Longrightarrow> \<exists>s'. oi_dfs limite g no s = Inr s'"
proof (induction limite arbitrary: no s)
  case 0
  have "no \<in> nodes g - oi_visitado s" using 0 by simp
  then have "card (nodes g - oi_visitado s) \<noteq> 0" using finite_nodes [of g] by auto
  then show ?case using 0 by simp
next
  case (Suc limite)
  let ?body = "\<lambda>vizinho s. if vizinho \<notin> oi_visitado s then oi_dfs limite g vizinho s else Inr s"
  let ?s0 = "s\<lparr>oi_visitado := insert no (oi_visitado s)\<rparr>"
  have "card (nodes g - insert no (oi_visitado s)) < card (nodes g - oi_visitado s)"
    using Suc.prems(1,2) finite_nodes [of g] by (intro psubset_card_mono) auto
  then have c0: "card (nodes g - oi_visitado ?s0) \<le> limite" using Suc.prems(3) by simp
  have "\<exists>s'. for_each ?body (vizinhos g no) ?s0 = Inr s' \<and> oi_visitado ?s0 \<subseteq> oi_visitado s'"
  proof (rule for_each_total [where I = "\<lambda>pre s'. oi_visitado ?s0 \<subseteq> oi_visitado s'"])
    show "oi_visitado ?s0 \<subseteq> oi_visitado ?s0" by simp
  next
    fix pre v suf and s1 :: oi_state
    assume xs: "vizinhos g no = pre @ v # suf" and I: "oi_visitado ?s0 \<subseteq> oi_visitado s1"
    show "\<exists>s2. ?body v s1 = Inr s2 \<and> oi_visitado ?s0 \<subseteq> oi_visitado s2"
    proof (cases "v \<in> oi_visitado s1")
      case True
      then show ?thesis using I by simp
    next
      case False
      have v: "v \<in> nodes g" using xs vizinhos_nodes(1) [of v g no] by simp
      have "card (nodes g - oi_visitado s1) \<le> card (nodes g - oi_visitado ?s0)"
        using I finite_nodes [of g] by (intro card_mono) auto
      then have "card (nodes g - oi_visitado s1) \<le> limite" using c0 by simp
      then obtain s2 where s2: "oi_dfs limite g v s1 = Inr s2"
        using Suc.IH [OF v False] by blast
      have "oi_visitado s1 \<subseteq> oi_visitado s2"
        using oi_dfs_mono [of s1 limite g v] s2 by simp
      then show ?thesis using s2 False I by auto
    qed
  qed
  then show ?case by auto
qed

lemma oi_dfs_retorna:
  "oi_pre g no s \<Longrightarrow> retorna (oi_post g no s) (oi_dfs limite g no s)"
proof (induction limite arbitrary: no s)
  case 0
  show ?case by simp
next
  case (Suc limite)
  let ?body = "\<lambda>vizinho s. if vizinho \<notin> oi_visitado s then oi_dfs limite g vizinho s else Inr s"
  let ?s0 = "s\<lparr>oi_visitado := insert no (oi_visitado s)\<rparr>"
  let ?I = "\<lambda>pre s1. oi_inv g s1 \<and> set pre \<subseteq> oi_visitado s1 \<and>
     (\<exists>novos. ordem s1 = ordem s @ novos \<and>
        oi_visitado s1 = insert no (oi_visitado s) \<union> set novos \<and>
        set novos \<inter> insert no (oi_visitado s) = {})"
  from Suc.prems have inv: "oi_inv g s" and no: "no \<in> nodes g" "no \<notin> oi_visitado s"
    and gray: "\<And>x. x \<in> oi_visitado s \<Longrightarrow> x \<notin> set (ordem s) \<Longrightarrow> (x, no) \<in> (edges g)\<^sup>+"
    by (auto simp: oi_pre_def)
  have sub: "set (ordem s) \<subseteq> oi_visitado s" using inv by (simp add: oi_inv_def)
  have loop: "retorna (?I (vizinhos g no)) (for_each ?body (vizinhos g no) ?s0)"
  proof (rule for_each_retorna)
    have "oi_inv g ?s0" using inv no by (auto simp: oi_inv_def)
    then show "?I [] ?s0" by simp
  next
    fix pre v suf and s1 :: oi_state
    assume xs: "vizinhos g no = pre @ v # suf" and I: "?I pre s1"
    from I obtain novos where n1: "ordem s1 = ordem s @ novos"
      "oi_visitado s1 = insert no (oi_visitado s) \<union> set novos"
      "set novos \<inter> insert no (oi_visitado s) = {}" by blast
    have e: "(no, v) \<in> edges g" using xs by (simp add: edges_iff)
    show "retorna (?I (pre @ [v])) (?body v s1)"
    proof (cases "v \<in> oi_visitado s1")
      case True
      then show ?thesis using I by simp
    next
      case False
      have "(x, v) \<in> (edges g)\<^sup>+" if "x \<in> oi_visitado s1 - set (ordem s1)" for x
      proof (cases "x = no")
        case True
        then show ?thesis using e by auto
      next
        case False
        then have "x \<in> oi_visitado s" "x \<notin> set (ordem s)" using that n1 by auto
        then have "(x, no) \<in> (edges g)\<^sup>+" by (rule gray)
        then show ?thesis using e by auto
      qed
      moreover have "v \<in> nodes g" using xs vizinhos_nodes(1) [of v g no] by simp
      ultimately have "oi_pre g v s1" using I False by (simp add: oi_pre_def)
      then have "retorna (oi_post g v s1) (oi_dfs limite g v s1)" by (rule Suc.IH)
      then have "retorna (?I (pre @ [v])) (oi_dfs limite g v s1)"
      proof (rule retorna_mono)
        fix s2 :: oi_state
        assume p: "oi_post g v s1 s2"
        then obtain n2 where n2: "ordem s2 = ordem s1 @ n2 @ [v]"
          "oi_visitado s2 = oi_visitado s1 \<union> set n2 \<union> {v}"
          "set n2 \<inter> oi_visitado s1 = {}" by (auto simp: oi_post_def)
        have a: "ordem s2 = ordem s @ (novos @ n2 @ [v])" using n1 n2 by simp
        have b: "oi_visitado s2 = insert no (oi_visitado s) \<union> set (novos @ n2 @ [v])"
          using n1 n2 by auto
        have c: "set (novos @ n2 @ [v]) \<inter> insert no (oi_visitado s) = {}"
          using n1 n2 False by auto
        have d: "set (pre @ [v]) \<subseteq> oi_visitado s2" using I n2 by auto
        show "?I (pre @ [v]) s2" using p a b c d unfolding oi_post_def by blast
      qed
      then show ?thesis using False by simp
    qed
  qed
  show ?case
  proof (cases "for_each ?body (vizinhos g no) ?s0")
    case (Inl e)
    then show ?thesis using loop by simp
  next
    case (Inr s1)
    then have I: "?I (vizinhos g no) s1" using loop by simp
    then obtain novos where n1: "ordem s1 = ordem s @ novos"
      "oi_visitado s1 = insert no (oi_visitado s) \<union> set novos"
      "set novos \<inter> insert no (oi_visitado s) = {}" by blast
    have inv1: "oi_inv g s1" and viz: "set (vizinhos g no) \<subseteq> oi_visitado s1" using I by auto
    let ?s2 = "s1\<lparr>ordem := ordem s1 @ [no]\<rparr>"
    have nno: "no \<notin> set (ordem s1)" using n1 sub no by auto
    have ord: "\<exists>p q r. ordem ?s2 = p @ b # q @ a # r"
      if nc: "\<not> has_cycle g" and a: "a \<in> set (ordem ?s2)" and b: "b \<in> set (vizinhos g a)"
      for a b
    proof (cases "a = no")
      case True
      have "b \<in> set (ordem s1)"
      proof (rule ccontr)
        assume nb: "b \<notin> set (ordem s1)"
        have bv: "b \<in> oi_visitado s1" using viz b True by auto
        have e: "(no, b) \<in> edges g" using b True by (simp add: edges_iff)
        have "(b, b) \<in> (edges g)\<^sup>+"
        proof (cases "b = no")
          case True
          then show ?thesis using e by auto
        next
          case False
          then have "b \<in> oi_visitado s" "b \<notin> set (ordem s)" using bv nb n1 by auto
          then have "(b, no) \<in> (edges g)\<^sup>+" by (rule gray)
          then show ?thesis using e by auto
        qed
        then show False using nc by (auto simp: has_cycle_def)
      qed
      then obtain p q where "ordem s1 = p @ b # q" by (auto simp: in_set_conv_decomp)
      then have "ordem ?s2 = p @ b # q @ a # []" using True by simp
      then show ?thesis by blast
    next
      case False
      then have "a \<in> set (ordem s1)" using a by simp
      then obtain p q r where "ordem s1 = p @ b # q @ a # r"
        using inv1 b nc unfolding oi_inv_def by blast
      then have "ordem ?s2 = p @ b # q @ a # (r @ [no])" by simp
      then show ?thesis by blast
    qed
    have vis: "b \<in> oi_visitado ?s2" if "a \<in> set (ordem ?s2)" "b \<in> set (vizinhos g a)" for a b
    proof (cases "a = no")
      case True
      then show ?thesis using viz that by auto
    next
      case False
      then show ?thesis using inv1 that unfolding oi_inv_def by auto
    qed
    have "distinct (ordem ?s2)" using inv1 nno by (simp add: oi_inv_def)
    moreover have "set (ordem ?s2) \<subseteq> oi_visitado ?s2" using inv1 n1 by (auto simp: oi_inv_def)
    moreover have "oi_visitado ?s2 \<subseteq> nodes g" using inv1 by (simp add: oi_inv_def)
    ultimately have inv2: "oi_inv g ?s2" using ord vis unfolding oi_inv_def by blast
    have "ordem ?s2 = ordem s @ novos @ [no]"
      "oi_visitado ?s2 = oi_visitado s \<union> set novos \<union> {no}"
      "set novos \<inter> oi_visitado s = {}"
      using n1 by auto
    then have "oi_post g no s ?s2" using inv2 unfolding oi_post_def by blast
    then show ?thesis using Inr by simp
  qed
qed



section \<open>The topological orderer as a whole\<close>

lemma nodes_iff: "x \<in> nodes g \<longleftrightarrow> (\<exists>k vs. (k, vs) \<in> set g \<and> (x = k \<or> x \<in> set vs))"
  unfolding nodes_def node_list_def by auto

lemma invariant_nodes:
  assumes "invariant g"
  shows "nodes g = set (chaves g)"
proof
  show "nodes g \<subseteq> set (chaves g)"
  proof
    fix x
    assume "x \<in> nodes g"
    then obtain k vs where kv: "(k, vs) \<in> set g" "x = k \<or> x \<in> set vs"
      unfolding nodes_iff by blast
    have "k \<in> set (chaves g)" using kv(1) unfolding chaves_def by force
    moreover have "set vs \<subseteq> set (chaves g)"
      using assms kv(1) unfolding invariant_def by blast
    ultimately show "x \<in> set (chaves g)" using kv(2) by blast
  qed
next
  show "set (chaves g) \<subseteq> nodes g" by (rule chaves_nodes)
qed

lemma oi_inv_antes:
  assumes "oi_inv g s" and "\<not> has_cycle g" and "a \<in> set (ordem s)"
    and "b \<in> set (vizinhos g a)"
  shows "\<exists>p q r. ordem s = p @ b # q @ a # r"
proof -
  have "\<forall>a \<in> set (ordem s). \<forall>b \<in> set (vizinhos g a).
        b \<in> oi_visitado s \<and> (\<not> has_cycle g \<longrightarrow> (\<exists>p q r. ordem s = p @ b # q @ a # r))"
    using assms(1) by (simp add: oi_inv_def)
  then have "\<forall>b \<in> set (vizinhos g a).
        b \<in> oi_visitado s \<and> (\<not> has_cycle g \<longrightarrow> (\<exists>p q r. ordem s = p @ b # q @ a # r))"
    using assms(3) by (rule bspec)
  then have "b \<in> oi_visitado s \<and> (\<not> has_cycle g \<longrightarrow> (\<exists>p q r. ordem s = p @ b # q @ a # r))"
    using assms(4) by (rule bspec)
  then have "\<not> has_cycle g \<longrightarrow> (\<exists>p q r. ordem s = p @ b # q @ a # r)"
    by (rule conjunct2)
  then show ?thesis using assms(2) by simp
qed

lemma ordem_instalacao_retorna:
  "retorna (\<lambda>r. distinct r \<and> set (chaves g) \<subseteq> set r \<and> set r \<subseteq> nodes g \<and>
      (\<not> has_cycle g \<longrightarrow>
         (\<forall>a b. (a, b) \<in> edges g \<longrightarrow> (\<exists>xs ys zs. r = xs @ a # ys @ b # zs))))
     (ordem_instalacao limite g)"
proof -
  let ?body = "\<lambda>no s. if no \<notin> oi_visitado s then oi_dfs limite g no s else Inr s"
  let ?s0 = "\<lparr>ordem = [], oi_visitado = {}\<rparr>"
  let ?I = "\<lambda>pre s. oi_inv g s \<and> oi_visitado s \<subseteq> set (ordem s) \<and> set pre \<subseteq> oi_visitado s"
  have loop: "retorna (?I (chaves g)) (for_each ?body (chaves g) ?s0)"
  proof (rule for_each_retorna)
    show "?I [] ?s0" by (simp add: oi_inv_def)
  next
    fix pre no suf and s :: oi_state
    assume xs: "chaves g = pre @ no # suf" and I: "?I pre s"
    have inv: "oi_inv g s" using I by blast
    have eq: "oi_visitado s \<subseteq> set (ordem s)" using I by blast
    have pre: "set pre \<subseteq> oi_visitado s" using I by blast
    show "retorna (?I (pre @ [no])) (?body no s)"
    proof (cases "no \<in> oi_visitado s")
      case True
      then have "set (pre @ [no]) \<subseteq> oi_visitado s" using pre by simp
      then have "?I (pre @ [no]) s" using inv eq by blast
      moreover have "?body no s = Inr s" using True by simp
      ultimately show ?thesis by simp
    next
      case False
      have "no \<in> nodes g" using xs chaves_nodes [of g] by auto
      moreover have "oi_visitado s - set (ordem s) = {}" using eq by blast
      ultimately have "oi_pre g no s" using inv False unfolding oi_pre_def by blast
      then have "retorna (oi_post g no s) (oi_dfs limite g no s)" by (rule oi_dfs_retorna)
      then have "retorna (?I (pre @ [no])) (oi_dfs limite g no s)"
      proof (rule retorna_mono)
        fix s' :: oi_state
        assume p: "oi_post g no s s'"
        then obtain novos where n: "ordem s' = ordem s @ novos @ [no]"
          "oi_visitado s' = oi_visitado s \<union> set novos \<union> {no}"
          unfolding oi_post_def by blast
        have "set (ordem s') = set (ordem s) \<union> set novos \<union> {no}"
          unfolding n(1) by auto
        then have a: "oi_visitado s' \<subseteq> set (ordem s')" using n(2) eq by blast
        have b: "set (pre @ [no]) \<subseteq> oi_visitado s'" using n(2) pre by auto
        have c: "oi_inv g s'" using p unfolding oi_post_def by blast
        show "?I (pre @ [no]) s'" using a b c by blast
      qed
      moreover have "?body no s = oi_dfs limite g no s" using False by simp
      ultimately show ?thesis by simp
    qed
  qed
  show ?thesis
  proof (cases "for_each ?body (chaves g) ?s0")
    case (Inl e)
    then show ?thesis using loop by (simp add: ordem_instalacao_def)
  next
    case (Inr s)
    then have I0: "?I (chaves g) s" using loop by simp
    have inv: "oi_inv g s" using I0 by blast
    have sub: "set (chaves g) \<subseteq> set (ordem s)" using I0 by blast
    have "\<exists>xs ys zs. rev (ordem s) = xs @ a # ys @ b # zs"
      if nc: "\<not> has_cycle g" and e: "(a, b) \<in> edges g" for a b
    proof -
      have "a \<in> set (chaves g)" using e vizinhos_nodes(2) [of b g a] by (simp add: edges_iff)
      then have "a \<in> set (ordem s)" using sub by auto
      moreover have "b \<in> set (vizinhos g a)" using e by (simp add: edges_iff)
      ultimately obtain p q r where "ordem s = p @ b # q @ a # r"
        using oi_inv_antes [OF inv nc] by blast
      then have "rev (ordem s) = rev r @ a # rev q @ b # rev p" by simp
      then show ?thesis by blast
    qed
    moreover have "distinct (rev (ordem s))" using inv by (simp add: oi_inv_def)
    moreover have "set (chaves g) \<subseteq> set (rev (ordem s))" using sub by simp
    moreover have "set (rev (ordem s)) \<subseteq> nodes g" using inv by (auto simp: oi_inv_def)
    moreover have "ordem_instalacao limite g = Inr (rev (ordem s))"
      using Inr by (simp add: ordem_instalacao_def)
    ultimately show ?thesis by simp
  qed
qed


lemma ordem_instalacao_total:
  assumes "length (node_list g) \<le> limite"
  shows "\<exists>r. ordem_instalacao limite g = Inr r"
proof -
  let ?body = "\<lambda>no s. if no \<notin> oi_visitado s then oi_dfs limite g no s else Inr s"
  let ?s0 = "\<lparr>ordem = [], oi_visitado = {}\<rparr>"
  have "\<exists>s'. for_each ?body (chaves g) ?s0 = Inr s' \<and> True"
  proof (rule for_each_total [where I = "\<lambda>pre s. True"])
    show True by simp
  next
    fix pre no suf and s :: oi_state
    assume xs: "chaves g = pre @ no # suf"
    show "\<exists>s1. ?body no s = Inr s1 \<and> True"
    proof (cases "no \<in> oi_visitado s")
      case True
      then show ?thesis by simp
    next
      case False
      have n: "no \<in> nodes g" using xs chaves_nodes [of g] by auto
      have "card (nodes g - oi_visitado s) \<le> card (nodes g)"
        using finite_nodes [of g] by (intro card_mono) auto
      then have "card (nodes g - oi_visitado s) \<le> limite" using assms by (simp add: card_nodes)
      from oi_dfs_total [OF n False this] show ?thesis using False by simp
    qed
  qed
  then show ?thesis by (auto simp: ordem_instalacao_def)
qed

lemma distinct_length_nodes:
  "distinct r \<Longrightarrow> set r \<subseteq> nodes g \<Longrightarrow> length r \<le> length (node_list g)"
proof -
  assume d: "distinct r" and s: "set r \<subseteq> nodes g"
  have "length r = card (set r)" using d by (simp add: distinct_card)
  also have "\<dots> \<le> card (nodes g)" using s finite_nodes by (intro card_mono)
  finally show ?thesis by (simp add: card_nodes)
qed



section \<open>The depth-first walk of the cycle detector\<close>

lemma fechado_alcance:
  assumes "\<And>x. x \<in> S \<Longrightarrow> set (vizinhos g x) \<subseteq> S" and "(b, x) \<in> (edges g)\<^sup>*" and "b \<in> S"
  shows "x \<in> S"
  using assms(2,3)
proof (induction rule: rtrancl_induct)
  case base
  then show ?case by simp
next
  case (step y z)
  then show ?case using assms(1) [of y] by (auto simp: edges_iff)
qed

lemma card_visitado_mono:
  "V \<subseteq> V' \<Longrightarrow> card (nodes g - V') \<le> card (nodes g - V)"
  using finite_nodes [of g] by (intro card_mono) auto

lemma card_visitado_insert:
  "no \<in> nodes g \<Longrightarrow> no \<notin> V \<Longrightarrow> card (nodes g - V) \<le> Suc limite
   \<Longrightarrow> card (nodes g - insert no V) \<le> limite"
proof -
  assume a: "no \<in> nodes g" "no \<notin> V" and b: "card (nodes g - V) \<le> Suc limite"
  have "card (nodes g - insert no V) < card (nodes g - V)"
    using a finite_nodes [of g] by (intro psubset_card_mono) auto
  then show ?thesis using b by simp
qed

lemma tc_loop_retorna:
  assumes dfs: "\<And>v s. tc_pre g v s \<Longrightarrow>
      retorna (tc_post g v s) (dfs v s) \<and>
      (card (nodes g - tc_visitado s) \<le> limite \<longrightarrow> dfs v s \<noteq> Inl RecursionError)"
    and "set vs \<subseteq> set (vizinhos g no)"
    and "tc_laco g no (recursao s) s"
  shows "retorna (tc_laco_post g no vs s) (tc_loop dfs vs s) \<and>
      (card (nodes g - tc_visitado s) \<le> limite \<longrightarrow> tc_loop dfs vs s \<noteq> Inl RecursionError)"
  using assms(2,3)
proof (induction vs arbitrary: s)
  case Nil
  then show ?case by (simp add: tc_laco_post_def)
next
  case (Cons v vs)
  have L: "tc_laco g no (recursao s) s" by (rule Cons.prems(2))
  then have inv: "tc_inv g s" and reach: "\<And>x. x \<in> recursao s \<Longrightarrow> (x, no) \<in> (edges g)\<^sup>*"
    by (auto simp: tc_laco_def)
  have e: "(no, v) \<in> edges g" using Cons.prems(1) by (simp add: edges_iff)
  have vs: "set vs \<subseteq> set (vizinhos g no)" using Cons.prems(1) by simp
  show ?case
  proof (cases "v \<in> tc_visitado s")
    case False
    have "v \<in> nodes g" using Cons.prems(1) vizinhos_nodes(1) [of v g no] by simp
    moreover have "(x, v) \<in> (edges g)\<^sup>+" if "x \<in> recursao s" for x
      using reach [OF that] e by auto
    ultimately have pre: "tc_pre g v s" using inv False by (simp add: tc_pre_def)
    note d = dfs [OF pre]
    show ?thesis
    proof (cases "dfs v s")
      case (Inl err)
      then show ?thesis using d False by auto
    next
      case (Inr r)
      obtain achou s' where r: "r = (achou, s')" by (cases r)
      have post: "tc_post g v s (achou, s')" using d Inr r by simp
      show ?thesis
      proof (cases achou)
        case True
        then show ?thesis using post Inr r False by (simp add: tc_post_def tc_laco_post_def)
      next
        case nf: False
        from post nf have p: "tc_inv g s'" "recursao s' = recursao s"
          "tc_visitado s \<subseteq> tc_visitado s'" "v \<in> tc_visitado s'"
          by (simp_all add: tc_post_def)
        have L': "tc_laco g no (recursao s') s'" using p L by (simp add: tc_laco_def)
        note ih = Cons.IH [OF vs L']
        have vR: "v \<notin> recursao s" using inv False by (auto simp: tc_inv_def)
        have k: "tc_loop dfs (v # vs) s = tc_loop dfs vs s'" using False Inr r nf by simp
        have c: "card (nodes g - tc_visitado s') \<le> card (nodes g - tc_visitado s)"
          using p(3) by (rule card_visitado_mono)
        have "retorna (tc_laco_post g no (v # vs) s) (tc_loop dfs vs s')"
        proof (rule retorna_mono)
          show "retorna (tc_laco_post g no vs s') (tc_loop dfs vs s')" using ih by simp
        next
          fix r :: "bool \<times> tc_state"
          assume q: "tc_laco_post g no vs s' r"
          show "tc_laco_post g no (v # vs) s r"
          proof (cases "fst r")
            case True
            then show ?thesis using q by (simp add: tc_laco_post_def)
          next
            case False
            then have q': "tc_laco g no (recursao s) (snd r)"
              "tc_visitado s' \<subseteq> tc_visitado (snd r)"
              "set vs \<subseteq> tc_visitado (snd r) - recursao s"
              using q p(2) by (simp_all add: tc_laco_post_def)
            have "tc_visitado s \<subseteq> tc_visitado (snd r)" using p(3) q'(2) by blast
            moreover have "set (v # vs) \<subseteq> tc_visitado (snd r) - recursao s"
              using p(4) q'(2,3) vR by auto
            ultimately show ?thesis using False q'(1) by (simp add: tc_laco_post_def)
          qed
        qed
        then show ?thesis using ih k c by auto
      qed
    qed
  next
    case True
    show ?thesis
    proof (cases "v \<in> recursao s")
      case inR: True
      have "(v, v) \<in> (edges g)\<^sup>+" using reach [OF inR] e by auto
      then have "has_cycle g" by (auto simp: has_cycle_def)
      then show ?thesis using True inR by (simp add: tc_laco_post_def)
    next
      case False
      note ih = Cons.IH [OF vs L]
      have k: "tc_loop dfs (v # vs) s = tc_loop dfs vs s" using True False by simp
      have "retorna (tc_laco_post g no (v # vs) s) (tc_loop dfs vs s)"
      proof (rule retorna_mono)
        show "retorna (tc_laco_post g no vs s) (tc_loop dfs vs s)" using ih by simp
      next
        fix r :: "bool \<times> tc_state"
        assume q: "tc_laco_post g no vs s r"
        show "tc_laco_post g no (v # vs) s r"
        proof (cases "fst r")
          case True
          then show ?thesis using q by (simp add: tc_laco_post_def)
        next
          case nf: False
          then have q': "tc_laco g no (recursao s) (snd r)"
            "tc_visitado s \<subseteq> tc_visitado (snd r)"
            "set vs \<subseteq> tc_visitado (snd r) - recursao s"
            using q by (simp_all add: tc_laco_post_def)
          have "set (v # vs) \<subseteq> tc_visitado (snd r) - recursao s"
            using q'(2,3) True False by auto
          then show ?thesis using nf q'(1,2) by (simp add: tc_laco_post_def)
        qed
      qed
      then show ?thesis using ih k by auto
    qed
  qed
qed

lemma tc_dfs_retorna:
  "tc_pre g no s \<Longrightarrow>
     retorna (tc_post g no s) (tc_dfs limite g no s) \<and>
     (card (nodes g - tc_visitado s) \<le> limite \<longrightarrow> tc_dfs limite g no s \<noteq> Inl RecursionError)"
proof (induction limite arbitrary: no s)
  case 0
  then have "no \<in> nodes g - tc_visitado s" by (simp add: tc_pre_def)
  then have "card (nodes g - tc_visitado s) \<noteq> 0" using finite_nodes [of g] by auto
  then show ?case by simp
next
  case (Suc limite)
  let ?s0 = "s\<lparr>tc_visitado := insert no (tc_visitado s), recursao := insert no (recursao s)\<rparr>"
  from Suc.prems have inv: "tc_inv g s" and no: "no \<in> nodes g" "no \<notin> tc_visitado s"
    and reach: "\<And>x. x \<in> recursao s \<Longrightarrow> (x, no) \<in> (edges g)\<^sup>+"
    by (auto simp: tc_pre_def)
  have noR: "no \<notin> recursao s" using inv no by (auto simp: tc_inv_def)
  have black0: "tc_visitado ?s0 - recursao ?s0 = tc_visitado s - recursao s"
    using no by auto
  have "tc_inv g ?s0"
    unfolding tc_inv_def black0 using inv no by (auto simp: tc_inv_def)
  moreover have "(x, no) \<in> (edges g)\<^sup>*" if "x \<in> recursao ?s0" for x
    using that reach [of x] by (cases "x = no") auto
  ultimately have L: "tc_laco g no (recursao ?s0) ?s0" by (simp add: tc_laco_def)
  have loop: "retorna (tc_laco_post g no (vizinhos g no) ?s0)
        (tc_loop (tc_dfs limite g) (vizinhos g no) ?s0) \<and>
      (card (nodes g - tc_visitado ?s0) \<le> limite \<longrightarrow>
        tc_loop (tc_dfs limite g) (vizinhos g no) ?s0 \<noteq> Inl RecursionError)"
    by (rule tc_loop_retorna [OF Suc.IH _ L]) simp_all
  have c: "card (nodes g - tc_visitado ?s0) \<le> limite"
    if "card (nodes g - tc_visitado s) \<le> Suc limite"
    using card_visitado_insert [OF no that] by simp
  show ?case
  proof (cases "tc_loop (tc_dfs limite g) (vizinhos g no) ?s0")
    case (Inl err)
    then show ?thesis using loop c by auto
  next
    case (Inr r)
    obtain achou s' where r: "r = (achou, s')" by (cases r)
    have post: "tc_laco_post g no (vizinhos g no) ?s0 (achou, s')" using loop Inr r by simp
    show ?thesis
    proof (cases achou)
      case True
      then show ?thesis using post Inr r by (simp add: tc_laco_post_def tc_post_def)
    next
      case False
      from post False have p: "tc_inv g s'" "recursao s' = insert no (recursao s)"
        "insert no (tc_visitado s) \<subseteq> tc_visitado s'"
        "set (vizinhos g no) \<subseteq> tc_visitado s' - insert no (recursao s)"
        by (simp_all add: tc_laco_post_def tc_laco_def)
      let ?s2 = "s'\<lparr>recursao := recursao s' - {no}\<rparr>"
      have R2: "recursao ?s2 = recursao s" using p(2) noR by auto
      have black: "tc_visitado ?s2 - recursao ?s2 = insert no (tc_visitado s' - recursao s')"
        using p(2,3) noR by auto
      have fechado: "set (vizinhos g x) \<subseteq> tc_visitado s' - recursao s'"
        if "x \<in> tc_visitado s' - recursao s'" for x
        using p(1) that by (auto simp: tc_inv_def)
      have nc: "(no, no) \<notin> (edges g)\<^sup>+"
      proof
        assume "(no, no) \<in> (edges g)\<^sup>+"
        then obtain z where z: "(no, z) \<in> edges g" "(z, no) \<in> (edges g)\<^sup>*"
          by (auto dest: tranclD)
        have "z \<in> tc_visitado s' - recursao s'" using z(1) p(2,4) by (auto simp: edges_iff)
        then have "no \<in> tc_visitado s' - recursao s'"
          using fechado_alcance [of "tc_visitado s' - recursao s'" g z no] fechado z(2)
          by blast
        then show False using p(2) by simp
      qed
      have "set (vizinhos g b) \<subseteq> tc_visitado ?s2 - recursao ?s2 \<and> (b, b) \<notin> (edges g)\<^sup>+"
        if "b \<in> tc_visitado ?s2 - recursao ?s2" for b
      proof (cases "b = no")
        case True
        then show ?thesis using p(2,4) nc unfolding black by auto
      next
        case False
        then have "b \<in> tc_visitado s' - recursao s'" using that unfolding black by simp
        then show ?thesis using p(1) unfolding black by (auto simp: tc_inv_def)
      qed
      moreover have "recursao ?s2 \<subseteq> tc_visitado ?s2" using p(1) by (auto simp: tc_inv_def)
      moreover have "tc_visitado ?s2 \<subseteq> nodes g" using p(1) by (auto simp: tc_inv_def)
      ultimately have "tc_inv g ?s2" unfolding tc_inv_def by blast
      then have "tc_post g no s (False, ?s2)" using R2 p(3) by (auto simp: tc_post_def)
      moreover have "tc_dfs (Suc limite) g no s = Inr (False, ?s2)"
        using Inr r False p(2) by simp
      ultimately show ?thesis by simp
    qed
  qed
qed

lemma tc_nos_retorna:
  "tc_inv g s \<Longrightarrow> recursao s = {} \<Longrightarrow> set nos \<subseteq> set (chaves g) \<Longrightarrow> set pre \<subseteq> tc_visitado s
   \<Longrightarrow> retorna (tc_nos_post g (pre @ nos)) (tc_nos limite g nos s) \<and>
       (card (nodes g) \<le> limite \<longrightarrow> tc_nos limite g nos s \<noteq> Inl RecursionError)"
proof (induction nos arbitrary: s pre)
  case Nil
  then show ?case by (auto simp: tc_nos_post_def)
next
  case (Cons no nos)
  have nos: "set nos \<subseteq> set (chaves g)" using Cons.prems(3) by simp
  show ?case
  proof (cases "no \<in> tc_visitado s")
    case True
    then have "set (pre @ [no]) \<subseteq> tc_visitado s" using Cons.prems(4) by simp
    from Cons.IH [OF Cons.prems(1,2) nos this] show ?thesis using True by simp
  next
    case False
    have "no \<in> nodes g" using Cons.prems(3) chaves_nodes [of g] by auto
    then have pre: "tc_pre g no s" using Cons.prems(1,2) False by (simp add: tc_pre_def)
    note d = tc_dfs_retorna [OF pre, of limite]
    have c: "card (nodes g - tc_visitado s) \<le> card (nodes g)"
      using finite_nodes [of g] by (intro card_mono) auto
    show ?thesis
    proof (cases "tc_dfs limite g no s")
      case (Inl err)
      then show ?thesis using d c False by auto
    next
      case (Inr r)
      obtain achou s' where r: "r = (achou, s')" by (cases r)
      have post: "tc_post g no s (achou, s')" using d Inr r by simp
      show ?thesis
      proof (cases achou)
        case True
        then show ?thesis using post Inr r False by (simp add: tc_post_def tc_nos_post_def)
      next
        case nf: False
        from post nf have p: "tc_inv g s'" "recursao s' = recursao s"
          "tc_visitado s \<subseteq> tc_visitado s'" "no \<in> tc_visitado s'"
          by (simp_all add: tc_post_def)
        have "set (pre @ [no]) \<subseteq> tc_visitado s'" using Cons.prems(4) p by auto
        from Cons.IH [OF p(1) _ nos this] p(2) Cons.prems(2)
        show ?thesis using False Inr r nf by simp
      qed
    qed
  qed
qed

lemma tem_ciclo_retorna:
  "retorna (\<lambda>b. b = has_cycle g) (tem_ciclo limite g) \<and>
   (length (node_list g) \<le> limite \<longrightarrow> tem_ciclo limite g \<noteq> Inl RecursionError)"
proof -
  let ?s = "\<lparr>tc_visitado = {}, recursao = {}\<rparr>"
  have "tc_inv g ?s" by (simp add: tc_inv_def)
  then have r: "retorna (tc_nos_post g ([] @ chaves g)) (tc_nos limite g (chaves g) ?s) \<and>
      (card (nodes g) \<le> limite \<longrightarrow> tc_nos limite g (chaves g) ?s \<noteq> Inl RecursionError)"
    by (intro tc_nos_retorna) simp_all
  have "b = has_cycle g" if h: "tc_nos_post g (chaves g) b" for b
  proof (cases b)
    case True
    then show ?thesis using h by (simp add: tc_nos_post_def)
  next
    case False
    then obtain s' where s': "tc_inv g s'" "recursao s' = {}" "set (chaves g) \<subseteq> tc_visitado s'"
      using h by (auto simp: tc_nos_post_def)
    have "(n, n) \<notin> (edges g)\<^sup>+" for n
    proof
      assume c: "(n, n) \<in> (edges g)\<^sup>+"
      then have "n \<in> set (chaves g)" using edges_nodes by blast
      then have "n \<in> tc_visitado s' - recursao s'" using s' by auto
      then show False using s'(1) c by (auto simp: tc_inv_def)
    qed
    then show ?thesis using False by (simp add: has_cycle_def)
  qed
  moreover have "retorna (tc_nos_post g (chaves g)) (tc_nos limite g (chaves g) ?s)"
    using r by simp
  ultimately have "retorna (\<lambda>b. b = has_cycle g) (tc_nos limite g (chaves g) ?s)"
    by (rule retorna_mono [rotated])
  then show ?thesis using r by (simp add: tem_ciclo_def card_nodes)
qed



section \<open>The depth-first walk of the component finder\<close>

lemma for_each_limite:
  assumes "I [] s"
    and "\<And>pre x suf s. xs = pre @ x # suf \<Longrightarrow> I pre s \<Longrightarrow>
           retorna (I (pre @ [x])) (body x s) \<and> (c \<longrightarrow> body x s \<noteq> Inl RecursionError)"
  shows "retorna (I xs) (for_each body xs s) \<and> (c \<longrightarrow> for_each body xs s \<noteq> Inl RecursionError)"
  using assms
proof (induction xs arbitrary: s I)
  case Nil
  then show ?case by simp
next
  case (Cons x xs)
  have b: "retorna (I [x]) (body x s) \<and> (c \<longrightarrow> body x s \<noteq> Inl RecursionError)"
    using Cons.prems(2) [of "[]" x xs s] Cons.prems(1) by simp
  show ?case
  proof (cases "body x s")
    case (Inl e)
    then show ?thesis using b by auto
  next
    case (Inr s1)
    have "retorna (I (x # xs)) (for_each body xs s1) \<and>
        (c \<longrightarrow> for_each body xs s1 \<noteq> Inl RecursionError)"
    proof (rule Cons.IH [where I = "\<lambda>pre. I (x # pre)"])
      show "I [x] s1" using b Inr by simp
    next
      fix pre y suf t
      assume "xs = pre @ y # suf" and "I (x # pre) t"
      then show "retorna (I (x # pre @ [y])) (body y t) \<and> (c \<longrightarrow> body y t \<noteq> Inl RecursionError)"
        using Cons.prems(2) [of "x # pre" y suf t] by simp
    qed
    then show ?thesis using Inr by simp
  qed
qed

lemma desempilhar_raiz:
  "distinct (acima @ no # p) \<Longrightarrow> set (acima @ no # p) \<subseteq> np \<Longrightarrow>
   desempilhar no (acima @ no # p) np componente
     = Inr (componente @ acima @ [no], p, np - set (acima @ [no]))"
proof (induction acima arbitrary: np componente)
  case Nil
  then show ?case by auto
next
  case (Cons w acima)
  have w: "w \<in> np" "w \<noteq> no" "w \<notin> set (acima @ no # p)" using Cons.prems by auto
  have "distinct (acima @ no # p)" using Cons.prems(1) by simp
  moreover have "set (acima @ no # p) \<subseteq> np - {w}" using Cons.prems(2) w(3) by auto
  ultimately have "desempilhar no (acima @ no # p) (np - {w}) (componente @ [w])
     = Inr ((componente @ [w]) @ acima @ [no], p, (np - {w}) - set (acima @ [no]))"
    by (rule Cons.IH)
  moreover have "(np - {w}) - set (acima @ [no]) = np - set ((w # acima) @ [no])" by auto
  ultimately show ?case using w by simp
qed

lemma estende_refl: "estende s s"
  by (simp add: estende_def)

lemma estende_trans:
  assumes "estende s s1" and "estende s1 s2"
  shows "estende s s2"
proof -
  have i: "index s \<le> index s2" using assms by (simp add: estende_def)
  have o: "indices s2 w = indices s w \<and> lowlinks s2 w = lowlinks s w" if "indices s w \<noteq> None" for w
  proof -
    have 1: "indices s1 w = indices s w \<and> lowlinks s1 w = lowlinks s w"
      using assms(1) that by (simp add: estende_def)
    then have "indices s1 w \<noteq> None" using that by simp
    then have "indices s2 w = indices s1 w \<and> lowlinks s2 w = lowlinks s1 w"
      using assms(2) by (simp add: estende_def)
    then show ?thesis using 1 by simp
  qed
  have n: "index s \<le> j" if "indices s w = None" "indices s2 w = Some j" for w j
  proof (cases "indices s1 w")
    case None
    then have "index s1 \<le> j" using assms(2) that(2) by (simp add: estende_def)
    moreover have "index s \<le> index s1" using assms(1) by (simp add: estende_def)
    ultimately show ?thesis by simp
  next
    case (Some j')
    then have "indices s2 w = Some j'" using assms(2) by (simp add: estende_def)
    then have "j' = j" using that(2) by simp
    then show ?thesis using assms(1) that(1) Some by (simp add: estende_def)
  qed
  show ?thesis unfolding estende_def using i o n by blast
qed

lemma estende_dom: "estende s s' \<Longrightarrow> indices s w = Some i \<Longrightarrow> indices s' w = Some i"
  by (simp add: estende_def)


lemma cfc_laco_inicio:
  assumes "cfc_pre g no s"
  shows "cfc_laco g no s
     (s\<lparr>indices := (indices s)(no \<mapsto> index s), lowlinks := (lowlinks s)(no \<mapsto> index s),
        index := index s + 1, pilha := no # pilha s, na_pilha := insert no (na_pilha s)\<rparr>)"
    (is "cfc_laco g no s ?s0")
proof -
  from assms have inv: "cfc_inv g s" and nv: "indices s no = None" and nn: "no \<in> nodes g"
    and reach: "\<forall>w \<in> set (pilha s). (w, no) \<in> (edges g)\<^sup>*"
    by (simp_all add: cfc_pre_def)
  have "no \<notin> dom (indices s)" using nv by auto
  then have np: "no \<notin> set (pilha s)" using inv unfolding cfc_inv_def by blast
  have i0: "cfc_inv g ?s0" using inv np nn by (auto simp: cfc_inv_def)
  have e0: "estende s ?s0" using nv by (auto simp: estende_def)
  have a0: "\<exists>acima. pilha ?s0 = acima @ no # pilha s \<and>
        (\<forall>w \<in> set acima. (no, w) \<in> (edges g)\<^sup>* \<and> indices s w = None \<and>
           (\<exists>j. indices ?s0 w = Some j \<and> index s < j))"
    by (rule exI [of _ "[]"]) simp
  have r0: "\<forall>w \<in> set (pilha ?s0). (w, no) \<in> (edges g)\<^sup>*" using reach by simp
  have c0: "\<exists>l x. lowlinks ?s0 no = Some l \<and> l \<le> index s \<and> x \<in> set (pilha ?s0) \<and>
        indices ?s0 x = Some l \<and> (no, x) \<in> (edges g)\<^sup>*"
    by (rule exI [of _ "index s"], rule exI [of _ no]) simp
  show ?thesis unfolding cfc_laco_def using i0 e0 nv a0 r0 c0 by simp
qed

lemma cfc_laco_pre:
  assumes "cfc_laco g no s s1" and "v \<in> set (vizinhos g no)" and "indices s1 v = None"
  shows "cfc_pre g v s1"
proof -
  have e: "(no, v) \<in> edges g" using assms(2) by (simp add: edges_iff)
  have "(w, v) \<in> (edges g)\<^sup>*" if "w \<in> set (pilha s1)" for w
  proof -
    have "(w, no) \<in> (edges g)\<^sup>*" using assms(1) that unfolding cfc_laco_def by blast
    then show ?thesis using e by auto
  qed
  moreover have "v \<in> nodes g" using assms(2) by (rule vizinhos_nodes(1))
  moreover have "cfc_inv g s1" using assms(1) by (simp add: cfc_laco_def)
  ultimately show ?thesis using assms(3) by (simp add: cfc_pre_def)
qed

lemma cfc_laco_lowlink:
  assumes L: "cfc_laco g no s s1" and l: "lowlinks s1 no = Some l"
    and k: "l \<le> k \<or> (\<exists>x \<in> set (pilha s1). indices s1 x = Some k \<and> (no, x) \<in> (edges g)\<^sup>*)"
  shows "cfc_laco g no s (s1\<lparr>lowlinks := (lowlinks s1)(no \<mapsto> min l k)\<rparr>)"
    (is "cfc_laco g no s ?s2")
proof -
  from L have inv: "cfc_inv g s1" and est: "estende s s1" and nv: "indices s no = None"
    and ino: "indices s1 no = Some (index s)" and lt: "index s < index s1"
    and ac: "\<exists>acima. pilha s1 = acima @ no # pilha s \<and>
        (\<forall>w \<in> set acima. (no, w) \<in> (edges g)\<^sup>* \<and> indices s w = None \<and>
           (\<exists>j. indices s1 w = Some j \<and> index s < j))"
    and re: "\<forall>w \<in> set (pilha s1). (w, no) \<in> (edges g)\<^sup>*"
    and lo: "\<exists>l x. lowlinks s1 no = Some l \<and> l \<le> index s \<and> x \<in> set (pilha s1) \<and>
        indices s1 x = Some l \<and> (no, x) \<in> (edges g)\<^sup>*"
    unfolding cfc_laco_def by blast+
  have i2: "cfc_inv g ?s2" using inv by (simp add: cfc_inv_def)
  have e2: "estende s ?s2" using est nv by (auto simp: estende_def)
  from lo l obtain x where x: "l \<le> index s" "x \<in> set (pilha s1)" "indices s1 x = Some l"
    "(no, x) \<in> (edges g)\<^sup>*" by auto
  have c2: "\<exists>l' x'. lowlinks ?s2 no = Some l' \<and> l' \<le> index s \<and> x' \<in> set (pilha ?s2) \<and>
        indices ?s2 x' = Some l' \<and> (no, x') \<in> (edges g)\<^sup>*"
  proof (cases "l \<le> k")
    case True
    then have "min l k = l" by simp
    then show ?thesis using x by auto
  next
    case False
    then obtain y where y: "y \<in> set (pilha s1)" "indices s1 y = Some k" "(no, y) \<in> (edges g)\<^sup>*"
      using k by blast
    have "min l k = k" "k \<le> index s" using False x(1) by simp_all
    then show ?thesis using y by auto
  qed
  show ?thesis unfolding cfc_laco_def using i2 e2 nv ino lt ac re c2 by simp
qed


lemma cfc_laco_apos_dfs:
  assumes L: "cfc_laco g no s s1" and v: "v \<in> set (vizinhos g no)"
    and nv: "indices s1 v = None" and P: "cfc_post g v s1 s2"
  shows "cfc_laco g no s s2"
proof -
  from L have inv: "cfc_inv g s1" and est: "estende s s1" and nno: "indices s no = None"
    and ino: "indices s1 no = Some (index s)" and lt: "index s < index s1"
    and ac: "\<exists>acima. pilha s1 = acima @ no # pilha s \<and>
        (\<forall>w \<in> set acima. (no, w) \<in> (edges g)\<^sup>* \<and> indices s w = None \<and>
           (\<exists>j. indices s1 w = Some j \<and> index s < j))"
    and re: "\<forall>w \<in> set (pilha s1). (w, no) \<in> (edges g)\<^sup>*"
    and lo: "\<exists>l x. lowlinks s1 no = Some l \<and> l \<le> index s \<and> x \<in> set (pilha s1) \<and>
        indices s1 x = Some l \<and> (no, x) \<in> (edges g)\<^sup>*"
    unfolding cfc_laco_def by blast+
  from P have inv2: "cfc_inv g s2" and est2: "estende s1 s2"
    unfolding cfc_post_def by blast+
  from P obtain novos lv where n: "pilha s2 = novos @ pilha s1"
    "\<forall>w \<in> set novos. (v, w) \<in> (edges g)\<^sup>* \<and> (w, v) \<in> (edges g)\<^sup>* \<and> indices s1 w = None"
    "novos \<noteq> [] \<longrightarrow> (\<exists>x \<in> set (pilha s1). (v, x) \<in> (edges g)\<^sup>*)"
    unfolding cfc_post_def by (metis (no_types, lifting))
  from ac obtain acima where a: "pilha s1 = acima @ no # pilha s"
    "\<forall>w \<in> set acima. (no, w) \<in> (edges g)\<^sup>* \<and> indices s w = None \<and>
           (\<exists>j. indices s1 w = Some j \<and> index s < j)" by blast
  have e: "(no, v) \<in> edges g" using v by (simp add: edges_iff)
  have keep: "indices s2 w = indices s1 w \<and> lowlinks s2 w = lowlinks s1 w"
    if "indices s1 w \<noteq> None" for w
    using est2 that by (simp add: estende_def)
  have es: "estende s s2" using est est2 by (rule estende_trans)
  have ino2: "indices s2 no = Some (index s)" using keep [of no] ino by simp
  have lt2: "index s < index s2" using lt est2 by (simp add: estende_def)
  have novo: "(no, w) \<in> (edges g)\<^sup>* \<and> indices s w = None \<and>
           (\<exists>j. indices s2 w = Some j \<and> index s < j)" if w: "w \<in> set novos" for w
  proof -
    have 1: "(v, w) \<in> (edges g)\<^sup>*" "indices s1 w = None" using n(2) w by auto
    have 2: "(no, w) \<in> (edges g)\<^sup>*" using e 1(1) by auto
    have 3: "indices s w = None"
    proof (rule ccontr)
      assume "indices s w \<noteq> None"
      then have "indices s1 w = indices s w" using est by (simp add: estende_def)
      then show False using 1(2) \<open>indices s w \<noteq> None\<close> by simp
    qed
    have "w \<in> set (pilha s2)" using n(1) w by simp
    then have "w \<in> dom (indices s2)" using inv2 unfolding cfc_inv_def by blast
    then obtain j where j: "indices s2 w = Some j" by auto
    then have "index s1 \<le> j" using est2 1(2) by (simp add: estende_def)
    then have "index s < j" using lt by simp
    then show ?thesis using 2 3 j by simp
  qed
  have velho: "(no, w) \<in> (edges g)\<^sup>* \<and> indices s w = None \<and>
           (\<exists>j. indices s2 w = Some j \<and> index s < j)" if w: "w \<in> set acima" for w
  proof -
    from a(2) w obtain j where j: "(no, w) \<in> (edges g)\<^sup>*" "indices s w = None"
      "indices s1 w = Some j" "index s < j" by blast
    have "indices s2 w = Some j" using keep [of w] j(3) by simp
    then show ?thesis using j by simp
  qed
  have ac2: "\<exists>acima'. pilha s2 = acima' @ no # pilha s \<and>
        (\<forall>w \<in> set acima'. (no, w) \<in> (edges g)\<^sup>* \<and> indices s w = None \<and>
           (\<exists>j. indices s2 w = Some j \<and> index s < j))"
  proof (rule exI [of _ "novos @ acima"], rule conjI)
    show "pilha s2 = (novos @ acima) @ no # pilha s" using n(1) a(1) by simp
  next
    show "\<forall>w\<in>set (novos @ acima). (no, w) \<in> (edges g)\<^sup>* \<and> indices s w = None \<and>
           (\<exists>j. indices s2 w = Some j \<and> index s < j)"
      using novo velho by auto
  qed
  have re2: "\<forall>w \<in> set (pilha s2). (w, no) \<in> (edges g)\<^sup>*"
  proof
    fix w
    assume "w \<in> set (pilha s2)"
    then consider "w \<in> set novos" | "w \<in> set (pilha s1)" using n(1) by auto
    then show "(w, no) \<in> (edges g)\<^sup>*"
    proof cases
      case 1
      then have "novos \<noteq> []" by auto
      then obtain x where x: "x \<in> set (pilha s1)" "(v, x) \<in> (edges g)\<^sup>*" using n(3) by blast
      have "(w, v) \<in> (edges g)\<^sup>*" using n(2) 1 by blast
      moreover have "(x, no) \<in> (edges g)\<^sup>*" using re x(1) by blast
      ultimately show ?thesis using x(2) by (meson rtrancl_trans)
    next
      case 2
      then show ?thesis using re by blast
    qed
  qed
  from lo obtain l x where lx: "lowlinks s1 no = Some l" "l \<le> index s" "x \<in> set (pilha s1)"
    "indices s1 x = Some l" "(no, x) \<in> (edges g)\<^sup>*" by blast
  have "lowlinks s2 no = Some l" using keep [of no] ino lx(1) by simp
  moreover have "x \<in> set (pilha s2)" using n(1) lx(3) by simp
  moreover have "indices s2 x = Some l" using keep [of x] lx(4) by simp
  ultimately have lo2: "\<exists>l x. lowlinks s2 no = Some l \<and> l \<le> index s \<and> x \<in> set (pilha s2) \<and>
        indices s2 x = Some l \<and> (no, x) \<in> (edges g)\<^sup>*"
    using lx(2,5) by blast
  show ?thesis unfolding cfc_laco_def using inv2 es nno ino2 lt2 ac2 re2 lo2 by simp
qed


lemma cfc_vizinho_retorna:
  assumes L: "cfc_laco g no s s1" and v: "v \<in> set (vizinhos g no)"
    and dfs: "indices s1 v = None \<Longrightarrow>
       retorna (cfc_post g v s1) (dfs v s1) \<and> (c \<longrightarrow> dfs v s1 \<noteq> Inl RecursionError)"
  shows "retorna (cfc_laco g no s) (cfc_vizinho dfs no v s1) \<and>
     (c \<longrightarrow> cfc_vizinho dfs no v s1 \<noteq> Inl RecursionError)"
proof -
  from L obtain l where l: "lowlinks s1 no = Some l" unfolding cfc_laco_def by blast
  have inv: "cfc_inv g s1" using L by (simp add: cfc_laco_def)
  have e: "(no, v) \<in> edges g" using v by (simp add: edges_iff)
  show ?thesis
  proof (cases "indices s1 v")
    case None
    note d = dfs [OF None]
    show ?thesis
    proof (cases "dfs v s1")
      case (Inl err)
      then show ?thesis using d None by (auto simp: cfc_vizinho_def)
    next
      case (Inr s2)
      then have P: "cfc_post g v s1 s2" using d by simp
      have L2: "cfc_laco g no s s2" using L v None P by (rule cfc_laco_apos_dfs)
      have est2: "estende s1 s2" using P by (simp add: cfc_post_def)
      have ino: "indices s1 no \<noteq> None" using L by (simp add: cfc_laco_def)
      have l2: "lowlinks s2 no = Some l" using est2 ino l by (simp add: estende_def)
      from P obtain novos lv where n: "pilha s2 = novos @ pilha s1" "lowlinks s2 v = Some lv"
        "if novos = [] then index s1 \<le> lv
         else (\<exists>x \<in> set (pilha s1). indices s2 x = Some lv \<and> (v, x) \<in> (edges g)\<^sup>*)"
        unfolding cfc_post_def by (metis (no_types, lifting))
      have k: "l \<le> lv \<or> (\<exists>x \<in> set (pilha s2). indices s2 x = Some lv \<and> (no, x) \<in> (edges g)\<^sup>*)"
      proof (cases "novos = []")
        case True
        then have "index s1 \<le> lv" using n(3) by simp
        moreover have "l \<le> index s1"
        proof -
          from L obtain l' where "lowlinks s1 no = Some l'" "l' \<le> index s" "index s < index s1"
            unfolding cfc_laco_def by blast
          then show ?thesis using l by simp
        qed
        ultimately show ?thesis by simp
      next
        case False
        then obtain x where x: "x \<in> set (pilha s1)" "indices s2 x = Some lv"
          "(v, x) \<in> (edges g)\<^sup>*" using n(3) by auto
        have "x \<in> set (pilha s2)" using n(1) x(1) by simp
        moreover have "(no, x) \<in> (edges g)\<^sup>*" using e x(3) by auto
        ultimately show ?thesis using x(2) by blast
      qed
      have "cfc_laco g no s (s2\<lparr>lowlinks := (lowlinks s2)(no \<mapsto> min l lv)\<rparr>)"
        using L2 l2 k by (rule cfc_laco_lowlink)
      moreover have "cfc_vizinho dfs no v s1
          = Inr (s2\<lparr>lowlinks := (lowlinks s2)(no \<mapsto> min l lv)\<rparr>)"
        using None Inr l2 n(2) by (simp add: cfc_vizinho_def lookup_def)
      ultimately show ?thesis by simp
    qed
  next
    case (Some iv)
    show ?thesis
    proof (cases "v \<in> na_pilha s1")
      case True
      then have "v \<in> set (pilha s1)" using inv by (simp add: cfc_inv_def)
      moreover have "(no, v) \<in> (edges g)\<^sup>*" using e by auto
      ultimately have k: "l \<le> iv \<or>
          (\<exists>x \<in> set (pilha s1). indices s1 x = Some iv \<and> (no, x) \<in> (edges g)\<^sup>*)"
        using Some by blast
      have "cfc_laco g no s (s1\<lparr>lowlinks := (lowlinks s1)(no \<mapsto> min l iv)\<rparr>)"
        using L l k by (rule cfc_laco_lowlink)
      moreover have "cfc_vizinho dfs no v s1
          = Inr (s1\<lparr>lowlinks := (lowlinks s1)(no \<mapsto> min l iv)\<rparr>)"
        using Some True l by (simp add: cfc_vizinho_def lookup_def)
      ultimately show ?thesis by simp
    next
      case False
      then have "cfc_vizinho dfs no v s1 = Inr s1" using Some by (simp add: cfc_vizinho_def)
      then show ?thesis using L by simp
    qed
  qed
qed

lemma cfc_raiz_post:
  assumes L: "cfc_laco g no s s1"
  shows "\<exists>s'. cfc_raiz no s1 = Inr s' \<and> cfc_post g no s s'"
proof -
  from L have inv: "cfc_inv g s1" and est: "estende s s1" and nno: "indices s no = None"
    and ino: "indices s1 no = Some (index s)" and lt: "index s < index s1"
    and ac: "\<exists>acima. pilha s1 = acima @ no # pilha s \<and>
        (\<forall>w \<in> set acima. (no, w) \<in> (edges g)\<^sup>* \<and> indices s w = None \<and>
           (\<exists>j. indices s1 w = Some j \<and> index s < j))"
    and re: "\<forall>w \<in> set (pilha s1). (w, no) \<in> (edges g)\<^sup>*"
    and lo: "\<exists>l x. lowlinks s1 no = Some l \<and> l \<le> index s \<and> x \<in> set (pilha s1) \<and>
        indices s1 x = Some l \<and> (no, x) \<in> (edges g)\<^sup>*"
    unfolding cfc_laco_def by blast+
  from ac obtain acima where a: "pilha s1 = acima @ no # pilha s"
    "\<forall>w \<in> set acima. (no, w) \<in> (edges g)\<^sup>* \<and> indices s w = None \<and>
           (\<exists>j. indices s1 w = Some j \<and> index s < j)" by blast
  from lo obtain l x where lx: "lowlinks s1 no = Some l" "l \<le> index s" "x \<in> set (pilha s1)"
    "indices s1 x = Some l" "(no, x) \<in> (edges g)\<^sup>*" by blast
  from inv have d: "distinct (pilha s1)" and sp: "set (pilha s1) = na_pilha s1"
    and nd: "na_pilha s1 \<subseteq> dom (indices s1)" and dn: "dom (indices s1) \<subseteq> nodes g"
    and co: "\<forall>c \<in> set (cfc s1). componente_ok g c"
    by (simp_all add: cfc_inv_def)
  have novos: "(no, w) \<in> (edges g)\<^sup>* \<and> (w, no) \<in> (edges g)\<^sup>* \<and> indices s w = None"
    if "w \<in> set (acima @ [no])" for w
  proof (cases "w = no")
    case True
    then show ?thesis using nno by simp
  next
    case False
    then have w: "w \<in> set acima" using that by simp
    then have "w \<in> set (pilha s1)" using a(1) by simp
    then have "(w, no) \<in> (edges g)\<^sup>*" using re by blast
    then show ?thesis using a(2) w by blast
  qed
  show ?thesis
  proof (cases "l = index s")
    case True
    let ?comp = "acima @ [no]"
    let ?s' = "s1\<lparr>pilha := pilha s, na_pilha := na_pilha s1 - set ?comp,
                 cfc := (if length ?comp > 1 then cfc s1 @ [?comp] else cfc s1)\<rparr>"
    have "desempilhar no (acima @ no # pilha s) (na_pilha s1) []
        = Inr ([] @ acima @ [no], pilha s, na_pilha s1 - set (acima @ [no]))"
      using d sp a(1) by (intro desempilhar_raiz) auto
    then have r: "cfc_raiz no s1 = Inr ?s'"
      using lx(1) ino True a(1) by (simp add: cfc_raiz_def lookup_def)
    have dc: "distinct ?comp" using d a(1) by auto
    have "componente_ok g ?comp" if "1 < length ?comp"
      unfolding componente_ok_def
    proof (intro conjI ballI)
      fix u w
      assume "u \<in> set ?comp" "w \<in> set ?comp"
      then have "(u, no) \<in> (edges g)\<^sup>*" "(no, w) \<in> (edges g)\<^sup>*" using novos by blast+
      then show "(u, w) \<in> (edges g)\<^sup>*" by (rule rtrancl_trans)
    qed (use that dc in auto)
    then have co': "\<forall>c \<in> set (cfc ?s'). componente_ok g c" using co by auto
    have "set (pilha s) = na_pilha s1 - set ?comp" using d sp a(1) by auto
    moreover have "distinct (pilha s)" using d a(1) by simp
    ultimately have inv': "cfc_inv g ?s'"
      unfolding cfc_inv_def using nd dn co' by auto
    have est': "estende s ?s'" using est by (simp add: estende_def)
    have "\<exists>novos l. pilha ?s' = novos @ pilha s \<and>
        (\<forall>w \<in> set novos. (no, w) \<in> (edges g)\<^sup>* \<and> (w, no) \<in> (edges g)\<^sup>* \<and> indices s w = None) \<and>
        lowlinks ?s' no = Some l \<and>
        (if novos = [] then index s \<le> l
         else (\<exists>x \<in> set (pilha s). indices ?s' x = Some l \<and> (no, x) \<in> (edges g)\<^sup>*))"
      by (rule exI [of _ "[]"], rule exI [of _ l]) (use lx(1) True in simp)
    then have "cfc_post g no s ?s'"
      unfolding cfc_post_def using inv' est' ino by simp
    then show ?thesis using r by blast
  next
    case False
    have r: "cfc_raiz no s1 = Inr s1"
      using lx(1) ino False by (simp add: cfc_raiz_def lookup_def)
    have "x \<noteq> no" using lx(4) ino False by auto
    moreover have "x \<notin> set acima"
    proof
      assume "x \<in> set acima"
      then obtain j where "indices s1 x = Some j" "index s < j" using a(2) by blast
      then show False using lx(2,4) by simp
    qed
    ultimately have xs: "x \<in> set (pilha s)" using lx(3) a(1) by auto
    have "\<exists>novos l. pilha s1 = novos @ pilha s \<and>
        (\<forall>w \<in> set novos. (no, w) \<in> (edges g)\<^sup>* \<and> (w, no) \<in> (edges g)\<^sup>* \<and> indices s w = None) \<and>
        lowlinks s1 no = Some l \<and>
        (if novos = [] then index s \<le> l
         else (\<exists>x \<in> set (pilha s). indices s1 x = Some l \<and> (no, x) \<in> (edges g)\<^sup>*))"
    proof (rule exI [of _ "acima @ [no]"], rule exI [of _ l], intro conjI)
      show "pilha s1 = (acima @ [no]) @ pilha s" using a(1) by simp
    next
      show "\<forall>w\<in>set (acima @ [no]). (no, w) \<in> (edges g)\<^sup>* \<and> (w, no) \<in> (edges g)\<^sup>* \<and>
          indices s w = None"
        using novos by blast
    next
      show "lowlinks s1 no = Some l" by (rule lx(1))
    next
      show "if acima @ [no] = [] then index s \<le> l
         else (\<exists>x \<in> set (pilha s). indices s1 x = Some l \<and> (no, x) \<in> (edges g)\<^sup>*)"
        using xs lx(4,5) by auto
    qed
    then have "cfc_post g no s s1"
      unfolding cfc_post_def using inv est ino by simp
    then show ?thesis using r by blast
  qed
qed


lemma cfc_dfs_retorna:
  "cfc_pre g no s \<Longrightarrow>
     retorna (cfc_post g no s) (cfc_dfs limite g no s) \<and>
     (card (nodes g - dom (indices s)) \<le> limite \<longrightarrow> cfc_dfs limite g no s \<noteq> Inl RecursionError)"
proof (induction limite arbitrary: no s)
  case 0
  then have "no \<in> nodes g - dom (indices s)" by (auto simp: cfc_pre_def)
  then have "card (nodes g - dom (indices s)) \<noteq> 0" using finite_nodes [of g] by auto
  then show ?case by simp
next
  case (Suc limite)
  let ?s0 = "s\<lparr>indices := (indices s)(no \<mapsto> index s), lowlinks := (lowlinks s)(no \<mapsto> index s),
        index := index s + 1, pilha := no # pilha s, na_pilha := insert no (na_pilha s)\<rparr>"
  let ?c = "card (nodes g - dom (indices s)) \<le> Suc limite"
  have nn: "no \<in> nodes g" "no \<notin> dom (indices s)" using Suc.prems by (auto simp: cfc_pre_def)
  have L0: "cfc_laco g no s ?s0" using Suc.prems by (rule cfc_laco_inicio)
  have loop: "retorna (cfc_laco g no s)
        (for_each (cfc_vizinho (cfc_dfs limite g) no) (vizinhos g no) ?s0) \<and>
      (?c \<longrightarrow> for_each (cfc_vizinho (cfc_dfs limite g) no) (vizinhos g no) ?s0
         \<noteq> Inl RecursionError)"
  proof (rule for_each_limite [where I = "\<lambda>pre. cfc_laco g no s"])
    show "cfc_laco g no s ?s0" by (rule L0)
  next
    fix pre v suf and s1 :: cfc_state
    assume xs: "vizinhos g no = pre @ v # suf" and L: "cfc_laco g no s s1"
    have v: "v \<in> set (vizinhos g no)" using xs by simp
    show "retorna (cfc_laco g no s) (cfc_vizinho (cfc_dfs limite g) no v s1) \<and>
        (?c \<longrightarrow> cfc_vizinho (cfc_dfs limite g) no v s1 \<noteq> Inl RecursionError)"
      using L v
    proof (rule cfc_vizinho_retorna)
      assume nv: "indices s1 v = None"
      have pre: "cfc_pre g v s1" using L v nv by (rule cfc_laco_pre)
      have "card (nodes g - dom (indices s1)) \<le> limite" if c: ?c
      proof -
        have "estende s s1" "indices s1 no = Some (index s)"
          using L by (simp_all add: cfc_laco_def)
        then have "insert no (dom (indices s)) \<subseteq> dom (indices s1)"
          by (auto simp: estende_def)
        then have "card (nodes g - dom (indices s1)) \<le> card (nodes g - insert no (dom (indices s)))"
          by (rule card_visitado_mono)
        moreover have "card (nodes g - insert no (dom (indices s))) \<le> limite"
          using nn c by (rule card_visitado_insert)
        ultimately show ?thesis by simp
      qed
      then show "retorna (cfc_post g v s1) (cfc_dfs limite g v s1) \<and>
          (?c \<longrightarrow> cfc_dfs limite g v s1 \<noteq> Inl RecursionError)"
        using Suc.IH [OF pre] by blast
    qed
  qed
  show ?case
  proof (cases "for_each (cfc_vizinho (cfc_dfs limite g) no) (vizinhos g no) ?s0")
    case (Inl e)
    then show ?thesis using loop by auto
  next
    case (Inr s1)
    then have "cfc_laco g no s s1" using loop by simp
    then obtain s' where "cfc_raiz no s1 = Inr s'" "cfc_post g no s s'"
      using cfc_raiz_post by blast
    then show ?thesis using Inr by simp
  qed
qed

lemma encontrar_cfc_retorna:
  "retorna (\<lambda>cs. \<forall>c \<in> set cs. componente_ok g c) (encontrar_cfc limite g) \<and>
   (length (node_list g) \<le> limite \<longrightarrow> encontrar_cfc limite g \<noteq> Inl RecursionError)"
proof -
  let ?body = "\<lambda>no s. if indices s no = None then cfc_dfs limite g no s else Inr s"
  let ?s0 = "\<lparr>index = 0, indices = Map.empty, lowlinks = Map.empty, pilha = [],
              na_pilha = {}, cfc = []\<rparr>"
  let ?c = "length (node_list g) \<le> limite"
  let ?I = "\<lambda>s. cfc_inv g s \<and> pilha s = []"
  have loop: "retorna ?I (for_each ?body (chaves g) ?s0) \<and>
      (?c \<longrightarrow> for_each ?body (chaves g) ?s0 \<noteq> Inl RecursionError)"
  proof (rule for_each_limite [where I = "\<lambda>pre. ?I"])
    show "?I ?s0" by (simp add: cfc_inv_def)
  next
    fix pre no suf and s :: cfc_state
    assume xs: "chaves g = pre @ no # suf" and I: "?I s"
    show "retorna ?I (?body no s) \<and> (?c \<longrightarrow> ?body no s \<noteq> Inl RecursionError)"
    proof (cases "indices s no")
      case (Some i)
      then show ?thesis using I by simp
    next
      case None
      have "no \<in> nodes g" using xs chaves_nodes [of g] by auto
      then have pre: "cfc_pre g no s" using I None by (simp add: cfc_pre_def)
      note d = cfc_dfs_retorna [OF pre, of limite]
      have "card (nodes g - dom (indices s)) \<le> card (nodes g)"
        using finite_nodes [of g] by (intro card_mono) auto
      then have t: "?c \<longrightarrow> cfc_dfs limite g no s \<noteq> Inl RecursionError"
        using d by (simp add: card_nodes)
      have "retorna ?I (cfc_dfs limite g no s)"
      proof (rule retorna_mono)
        show "retorna (cfc_post g no s) (cfc_dfs limite g no s)" using d by simp
      next
        fix s' :: cfc_state
        assume P: "cfc_post g no s s'"
        then obtain novos where n: "pilha s' = novos @ pilha s"
          "novos \<noteq> [] \<longrightarrow> (\<exists>x. x \<in> set (pilha s))"
          unfolding cfc_post_def by (metis (no_types, lifting))
        have "novos = []" using n(2) I by auto
        then have "pilha s' = []" using n(1) I by simp
        moreover have "cfc_inv g s'" using P by (simp add: cfc_post_def)
        ultimately show "?I s'" by simp
      qed
      then show ?thesis using t None by simp
    qed
  qed
  show ?thesis
  proof (cases "for_each ?body (chaves g) ?s0")
    case (Inl e)
    then show ?thesis using loop by (auto simp: encontrar_cfc_def)
  next
    case (Inr s)
    then have "cfc_inv g s" using loop by simp
    then have "\<forall>c \<in> set (cfc s). componente_ok g c" by (simp add: cfc_inv_def)
    then show ?thesis using Inr by (simp add: encontrar_cfc_def)
  qed
qed

lemma componente_ok_mutuo:
  assumes "componente_ok g c" and "u \<in> set c" and "v \<in> set c"
  shows "(u, v) \<in> (edges g)\<^sup>+"
proof -
  have r: "\<And>x y. x \<in> set c \<Longrightarrow> y \<in> set c \<Longrightarrow> (x, y) \<in> (edges g)\<^sup>*"
    using assms(1) by (simp add: componente_ok_def)
  have dif: "(x, y) \<in> (edges g)\<^sup>+" if "x \<in> set c" "y \<in> set c" "x \<noteq> y" for x y
    using r [OF that(1,2)] that(3) by (auto dest: rtranclD)
  show ?thesis
  proof (cases "u = v")
    case False
    then show ?thesis using dif assms(2,3) by simp
  next
    case True
    obtain a b rest where c: "c = a # b # rest"
      using assms(1) unfolding componente_ok_def by (cases c; cases "tl c") auto
    have ab: "a \<noteq> b" using assms(1) c by (simp add: componente_ok_def)
    obtain w where w: "w \<in> set c" "w \<noteq> u"
    proof (cases "u = a")
      case True
      then show ?thesis using that [of b] c ab by simp
    next
      case False
      then show ?thesis using that [of a] c by simp
    qed
    have "(u, w) \<in> (edges g)\<^sup>+" "(w, u) \<in> (edges g)\<^sup>+"
      using dif [of u w] dif [of w u] w assms(2) by auto
    then show ?thesis using True by (auto intro: trancl_trans)
  qed
qed


section \<open>Outcomes of the six analyses\<close>

lemma retorna_erro: "retorna P r \<Longrightarrow> r = Inl e \<Longrightarrow> e = RecursionError"
  by simp

lemma retorna_valor: "retorna P r \<Longrightarrow> r \<noteq> Inl RecursionError \<Longrightarrow> \<exists>x. r = Inr x \<and> P x"
  by (cases r) auto

lemma simular_remocao_cd:
  "\<exists>h. inverter g = Inr h \<and> edges h = (edges g)\<inverse> \<and> card (nodes h) \<le> length (node_list g) \<and>
     simular_remocao limite g n = cd_dfs limite h n {}"
proof -
  from inverter_props [of g] obtain h where
    h: "inverter g = Inr h" "edges h = (edges g)\<inverse>" "nodes h \<subseteq> nodes g" by blast
  have "card (nodes h) \<le> card (nodes g)" using h(3) finite_nodes by (intro card_mono)
  then have "card (nodes h) \<le> length (node_list g)" by (simp add: card_nodes)
  moreover have "simular_remocao limite g n = cd_dfs limite h n {}"
    using h(1) by (simp add: simular_remocao_def sr_dfs_cd_dfs)
  ultimately show ?thesis using h(1,2) by blast
qed


section \<open>The degree analyzer returns the nodes of maximal in-degree\<close>

text \<open>
  C5, as amended. For every graph with at least one key,
  \<open>encontrar_pacotes_criticos\<close> returns a non-empty list that consists of exactly the
  nodes of the in-degree table whose value is the maximum of the table (in the order
  of the table), the returned integer is that maximum, and the values of the table add
  up to the number of edges, a repeated edge counted as often as it is listed. The
  table has one entry for every node of the graph, and the entry is the in-degree of
  the node. The empty graph is excluded: there the returned list is empty.
\<close>

theorem criticos_maximo:
  assumes "is_dict g" and "g \<noteq> []"
  shows "\<exists>criticos m t. encontrar_pacotes_criticos g = Inr (criticos, m, t)
     \<and> criticos \<noteq> []
     \<and> criticos = map fst (filter (\<lambda>(p, d). d = m) t)
     \<and> m = Max (set (map snd t))
     \<and> sum_list (map snd t) = edge_count g
     \<and> is_dict t \<and> fst ` set t = nodes g \<and> (\<forall>n. tget t n = grau_entrada g n)"
proof -
  from criticos_table [OF assms(1)] assms(2) obtain t t0 where
    t: "inicializar g = Inr t0" "contar g t0 = Inr t" "is_dict t" "fst ` set t = nodes g"
       "\<forall>n. tget t n = grau_entrada g n" "sum_list (map snd t) = edge_count g" "t \<noteq> []"
    by auto
  let ?m = "Max (set (map snd t))"
  have m: "maximo (map snd t) = Inr ?m" using t(7) by (simp add: maximo_Max)
  have "encontrar_pacotes_criticos g = Inr (map fst (filter (\<lambda>(p, d). d = ?m) t), ?m, t)"
    unfolding encontrar_pacotes_criticos_def using t(1,2,7) m
    by (simp add: criticos_filter)
  moreover have "map fst (filter (\<lambda>(p, d). d = ?m) t) \<noteq> []"
    using filter_Max_nonempty [OF t(7)] by simp
  ultimately show ?thesis using t by simp
qed

theorem criticos_maximo_witness:
  "is_dict diamante \<and> diamante \<noteq> [] \<and>
   (\<exists>criticos m t. encontrar_pacotes_criticos diamante = Inr (criticos, m, t)
     \<and> criticos \<noteq> []
     \<and> criticos = map fst (filter (\<lambda>(p, d). d = m) t)
     \<and> m = Max (set (map snd t))
     \<and> sum_list (map snd t) = edge_count diamante
     \<and> is_dict t \<and> fst ` set t = nodes diamante
     \<and> (\<forall>n. tget t n = grau_entrada diamante n))"
proof -
  have d: "is_dict diamante" by (simp add: is_dict_def diamante_def)
  have n: "diamante \<noteq> []" by (simp add: diamante_def)
  show ?thesis using d n criticos_maximo [OF d n] by blast
qed

text \<open>
  C5 as stated fails on the empty graph: the list of critical packages is empty.
\<close>

theorem criticos_grafo_vazio:
  "is_dict ([] :: graph) \<and> encontrar_pacotes_criticos [] = Inr ([], 0, [])"
  by (simp add: is_dict_def encontrar_pacotes_criticos_def inicializar_def contar_def
      chaves_def)

section \<open>The reachability queries return the reachable sets\<close>

text \<open>
  C6. \<open>consultar_dependencias\<close> returns the set of the nodes that \<open>n\<close> reaches by a
  path of at least one edge, so \<open>n\<close> itself is in the result exactly when it lies on a
  cycle. The call returns whenever the recursion limit exceeds the number of nodes, and
  for a smaller limit the only other outcome is \<open>RecursionError\<close>.
\<close>

theorem consultar_dependencias_alcance:
  "(length (node_list g) < limite \<longrightarrow>
      consultar_dependencias limite g n = Inr {m. (n, m) \<in> (edges g)\<^sup>+})
   \<and> (consultar_dependencias limite g n = Inr {m. (n, m) \<in> (edges g)\<^sup>+}
      \<or> consultar_dependencias limite g n = Inl RecursionError)
   \<and> (\<forall>r. consultar_dependencias limite g n = Inr r \<longrightarrow>
         (n \<in> r \<longleftrightarrow> (n, n) \<in> (edges g)\<^sup>+))"
proof -
  have a: "r = {m. (n, m) \<in> (edges g)\<^sup>+}" if "consultar_dependencias limite g n = Inr r" for r
    using that cd_dfs_alcance [of limite g n r] by (simp add: consultar_dependencias_def)
  have b: "\<exists>r. consultar_dependencias limite g n = Inr r" if "length (node_list g) < limite"
    using cd_dfs_limite [OF that, of n] by (simp add: consultar_dependencias_def)
  have c: "retorna (\<lambda>r. True) (consultar_dependencias limite g n)"
    unfolding consultar_dependencias_def
    by (rule retorna_mono [OF cd_dfs_retorna]) simp
  have d: "consultar_dependencias limite g n = Inr {m. (n, m) \<in> (edges g)\<^sup>+}
      \<or> consultar_dependencias limite g n = Inl RecursionError"
    using c a by (cases "consultar_dependencias limite g n") auto
  show ?thesis using a b d by blast
qed

theorem consultar_dependencias_alcance_witness:
  "length (node_list triangulo) < 10 \<and>
   consultar_dependencias 10 triangulo ''A'' = Inr {m. (''A'', m) \<in> (edges triangulo)\<^sup>+} \<and>
   ''A'' \<in> {m. (''A'', m) \<in> (edges triangulo)\<^sup>+}"
proof -
  have h: "length (node_list triangulo) < 10" by code_simp
  have v: "consultar_dependencias 10 triangulo ''A'' = Inr {''A'', ''B'', ''C''}" by code_simp
  show ?thesis using h v consultar_dependencias_alcance [of triangulo 10 "''A''"] by auto
qed

text \<open>
  C7. \<open>m\<close> is in \<open>simular_remocao g n\<close> exactly when \<open>m\<close> reaches \<open>n\<close> in \<open>g\<close> by a path
  of at least one edge. The inverted graph that the function builds has the edge
  \<open>v \<rightarrow> u\<close> exactly for the edges \<open>u \<rightarrow> v\<close> of \<open>g\<close>, and the result is that of
  \<open>consultar_dependencias\<close> on the inverted graph.
\<close>

theorem simular_remocao_alcance:
  "\<exists>invertido. inverter g = Inr invertido \<and> edges invertido = (edges g)\<inverse>
     \<and> simular_remocao limite g n = consultar_dependencias limite invertido n
     \<and> (length (node_list g) < limite \<longrightarrow>
          simular_remocao limite g n = Inr {m. (m, n) \<in> (edges g)\<^sup>+})
     \<and> (simular_remocao limite g n = Inr {m. (m, n) \<in> (edges g)\<^sup>+}
        \<or> simular_remocao limite g n = Inl RecursionError)"
proof -
  from inverter_props [of g] obtain h where
    h: "inverter g = Inr h" "edges h = (edges g)\<inverse>" "nodes h \<subseteq> nodes g" by blast
  have s: "simular_remocao limite g n = cd_dfs limite h n {}"
    using h(1) by (simp add: simular_remocao_def sr_dfs_cd_dfs)
  have t: "{m. (n, m) \<in> (edges h)\<^sup>+} = {m. (m, n) \<in> (edges g)\<^sup>+}"
    using h(2) by (simp add: trancl_converse)
  have a: "r = {m. (m, n) \<in> (edges g)\<^sup>+}" if "cd_dfs limite h n {} = Inr r" for r
    using cd_dfs_alcance [OF that] t by simp
  have b: "\<exists>r. cd_dfs limite h n {} = Inr r" if "length (node_list g) < limite"
  proof -
    have "card (nodes h) \<le> card (nodes g)" using h(3) finite_nodes by (intro card_mono)
    then have "card (nodes h - {}) < limite" using that by (simp add: card_nodes)
    then show ?thesis by (rule cd_dfs_total)
  qed
  have c: "retorna (\<lambda>r. True) (cd_dfs limite h n {})"
    by (rule retorna_mono [OF cd_dfs_retorna]) simp
  have d: "cd_dfs limite h n {} = Inr {m. (m, n) \<in> (edges g)\<^sup>+}
      \<or> cd_dfs limite h n {} = Inl RecursionError"
    using c a by (cases "cd_dfs limite h n {}") auto
  show ?thesis using h(1,2) s a b d by (auto simp: consultar_dependencias_def)
qed

theorem simular_remocao_alcance_witness:
  "length (node_list diamante) < 10 \<and>
   (\<exists>invertido. inverter diamante = Inr invertido \<and> edges invertido = (edges diamante)\<inverse>
     \<and> simular_remocao 10 diamante ''D'' = consultar_dependencias 10 invertido ''D''
     \<and> simular_remocao 10 diamante ''D'' = Inr {m. (m, ''D'') \<in> (edges diamante)\<^sup>+})"
proof -
  have h: "length (node_list diamante) < 10" by code_simp
  show ?thesis using h simular_remocao_alcance [of diamante 10 "''D''"] by auto
qed

text \<open>
  C8. For a node that is neither a key nor an edge destination of the graph, both
  queries return the empty set; no exception is raised.
\<close>

theorem consulta_no_ausente:
  assumes "n \<notin> nodes g" and "0 < limite"
  shows "consultar_dependencias limite g n = Inr {} \<and> simular_remocao limite g n = Inr {}"
proof -
  obtain k where k: "limite = Suc k" using assms(2) by (cases limite) auto
  have 1: "consultar_dependencias limite g n = Inr {}"
    using vizinhos_ausente [OF assms(1)] k by (simp add: consultar_dependencias_def)
  from inverter_props [of g] obtain h where
    h: "inverter g = Inr h" "edges h = (edges g)\<inverse>" "nodes h \<subseteq> nodes g" by blast
  have "vizinhos h n = []" using h(3) assms(1) by (intro vizinhos_ausente) auto
  then have 2: "simular_remocao limite g n = Inr {}"
    using h(1) k by (simp add: simular_remocao_def)
  show ?thesis using 1 2 by simp
qed

theorem consulta_no_ausente_witness:
  "''Z'' \<notin> nodes diamante \<and> (0::nat) < 1 \<and>
   consultar_dependencias 1 diamante ''Z'' = Inr {} \<and> simular_remocao 1 diamante ''Z'' = Inr {}"
proof -
  have a: "''Z'' \<notin> nodes diamante" by code_simp
  have b: "(0::nat) < 1" by simp
  show ?thesis using a b consulta_no_ausente [OF a b] by simp
qed


section \<open>The cycle detector decides the existence of a cycle\<close>

lemma diamante_aciclico: "\<not> has_cycle diamante"
proof -
  have "tem_ciclo 10 diamante = Inr False" by code_simp
  then show ?thesis using tem_ciclo_retorna [of diamante 10] by simp
qed

text \<open>
  C1. \<open>tem_ciclo\<close> returns \<open>True\<close> exactly when the graph has a directed cycle, a
  self-loop included, whatever the order of the keys and wherever the cycle lies. The
  call returns whenever the recursion limit is at least the number of nodes, and for a
  smaller limit the only other outcome is \<open>RecursionError\<close>. The invariant of the data
  model is not needed.
\<close>

theorem tem_ciclo_correto:
  "(length (node_list g) \<le> limite \<longrightarrow> tem_ciclo limite g = Inr (has_cycle g))
   \<and> (tem_ciclo limite g = Inr (has_cycle g) \<or> tem_ciclo limite g = Inl RecursionError)"
proof -
  note r = tem_ciclo_retorna [of g limite]
  show ?thesis
  proof (cases "tem_ciclo limite g")
    case (Inl e)
    then show ?thesis using r by auto
  next
    case (Inr b)
    then show ?thesis using r by auto
  qed
qed

theorem tem_ciclo_correto_witness:
  "length (node_list desconexo) \<le> 4 \<and> tem_ciclo 4 desconexo = Inr (has_cycle desconexo) \<and>
   has_cycle desconexo \<and>
   length (node_list laco) \<le> 1 \<and> tem_ciclo 1 laco = Inr (has_cycle laco) \<and> has_cycle laco \<and>
   length (node_list diamante) \<le> 4 \<and> tem_ciclo 4 diamante = Inr (has_cycle diamante) \<and>
   \<not> has_cycle diamante"
proof -
  have a: "length (node_list desconexo) \<le> 4" by code_simp
  have b: "length (node_list laco) \<le> 1" by code_simp
  have c: "length (node_list diamante) \<le> 4" by code_simp
  have a': "tem_ciclo 4 desconexo = Inr True" by code_simp
  have b': "tem_ciclo 1 laco = Inr True" by code_simp
  have c': "tem_ciclo 4 diamante = Inr False" by code_simp
  show ?thesis
    using a b c a' b' c' tem_ciclo_correto [of desconexo 4] tem_ciclo_correto [of laco 1]
      tem_ciclo_correto [of diamante 4]
    by simp
qed

section \<open>The install order\<close>

text \<open>
  C3. For every graph that satisfies the invariant of the data model (acyclic or not),
  the sequence returned by \<open>ordem_instalacao\<close> contains every node of the graph
  exactly once: it has no repetition and its elements are the keys, which are all the
  nodes. The call returns whenever the recursion limit is at least the number of nodes.
\<close>

theorem ordem_instalacao_permutacao:
  assumes "invariant g"
  shows "(length (node_list g) \<le> limite \<longrightarrow> (\<exists>r. ordem_instalacao limite g = Inr r))
   \<and> (\<forall>r. ordem_instalacao limite g = Inr r \<longrightarrow>
         distinct r \<and> set r = nodes g \<and> set r = set (chaves g))"
proof -
  have "distinct r \<and> set r = nodes g \<and> set r = set (chaves g)"
    if "ordem_instalacao limite g = Inr r" for r
    using ordem_instalacao_retorna [of g limite] that invariant_nodes [OF assms] by auto
  then show ?thesis using ordem_instalacao_total [of g limite] by blast
qed

theorem ordem_instalacao_permutacao_witness:
  "invariant diamante \<and> length (node_list diamante) \<le> 4 \<and>
   (\<exists>r. ordem_instalacao 4 diamante = Inr r \<and> distinct r \<and> set r = nodes diamante)"
proof -
  have i: "invariant diamante" by code_simp
  have l: "length (node_list diamante) \<le> 4" by code_simp
  show ?thesis using i l ordem_instalacao_permutacao [OF i, of 4] by blast
qed

text \<open>
  C4. \<open>ordem_instalacao\<close> returns the reverse of the order in which the depth-first
  walks finish. In an acyclic graph, for every edge \<open>a \<rightarrow> b\<close> (\<open>a\<close> depends on \<open>b\<close>),
  \<open>a\<close> occurs strictly before \<open>b\<close> in the returned order: the dependent comes before
  its dependency.
\<close>

theorem ordem_instalacao_dependente_antes:
  assumes "\<not> has_cycle g" and "(a, b) \<in> edges g"
  shows "(length (node_list g) \<le> limite \<longrightarrow> (\<exists>r. ordem_instalacao limite g = Inr r))
   \<and> (\<forall>r. ordem_instalacao limite g = Inr r \<longrightarrow> (\<exists>xs ys zs. r = xs @ a # ys @ b # zs))"
proof -
  have "\<exists>xs ys zs. r = xs @ a # ys @ b # zs" if "ordem_instalacao limite g = Inr r" for r
    using ordem_instalacao_retorna [of g limite] that assms by simp
  then show ?thesis using ordem_instalacao_total [of g limite] by blast
qed

theorem ordem_instalacao_dependente_antes_witness:
  "\<not> has_cycle diamante \<and> (''B'', ''D'') \<in> edges diamante \<and>
   length (node_list diamante) \<le> 4 \<and>
   ordem_instalacao 4 diamante = Inr [''A'', ''C'', ''B'', ''D''] \<and>
   (\<exists>xs ys zs. [''A'', ''C'', ''B'', ''D''] = xs @ ''B'' # ys @ ''D'' # zs)"
proof -
  have e: "(''B'', ''D'') \<in> edges diamante" by (simp add: edges_def vizinhos_def diamante_def)
  have l: "length (node_list diamante) \<le> 4" by code_simp
  have v: "ordem_instalacao 4 diamante = Inr [''A'', ''C'', ''B'', ''D'']" by code_simp
  show ?thesis
    using e l v diamante_aciclico
      ordem_instalacao_dependente_antes [OF diamante_aciclico e, of 4]
    by simp
qed

text \<open>
  C9. On every graph, cyclic ones included, \<open>ordem_instalacao\<close> terminates: it returns
  a sequence without repetition, at most as long as the number of nodes, whenever the
  recursion limit is at least the number of nodes, and for a smaller limit the only
  other outcome is \<open>RecursionError\<close>. The nesting of the \<^verbatim>\<open>dfs\<close> calls never exceeds
  the number of nodes, since each call is on a node that was not visited.
\<close>

theorem ordem_instalacao_termina:
  "(length (node_list g) \<le> limite \<longrightarrow>
      (\<exists>r. ordem_instalacao limite g = Inr r \<and> distinct r \<and> length r \<le> length (node_list g)))
   \<and> ((\<exists>r. ordem_instalacao limite g = Inr r) \<or> ordem_instalacao limite g = Inl RecursionError)"
proof -
  have a: "distinct r \<and> length r \<le> length (node_list g)"
    if "ordem_instalacao limite g = Inr r" for r
    using ordem_instalacao_retorna [of g limite] that distinct_length_nodes [of r g] by simp
  have b: "(\<exists>r. ordem_instalacao limite g = Inr r) \<or> ordem_instalacao limite g = Inl RecursionError"
    using ordem_instalacao_retorna [of g limite] by (cases "ordem_instalacao limite g") auto
  show ?thesis using a b ordem_instalacao_total [of g limite] by blast
qed

theorem ordem_instalacao_termina_witness:
  "has_cycle triangulo \<and> length (node_list triangulo) \<le> 3 \<and>
   (\<exists>r. ordem_instalacao 3 triangulo = Inr r \<and> distinct r \<and>
        length r \<le> length (node_list triangulo))"
proof -
  have "tem_ciclo 3 triangulo = Inr True" by code_simp
  then have c: "has_cycle triangulo" using tem_ciclo_retorna [of triangulo 3] by simp
  have l: "length (node_list triangulo) \<le> 3" by code_simp
  show ?thesis using c l ordem_instalacao_termina [of triangulo 3] by blast
qed


section \<open>The components that Tarjan's algorithm emits\<close>

text \<open>
  C2. Every component in the list returned by \<open>encontrar_cfc\<close> has at least two
  members, none of them twice, and for every two nodes \<open>u\<close>, \<open>v\<close> of one component
  there is a path from \<open>u\<close> to \<open>v\<close> (and so one from \<open>v\<close> to \<open>u\<close>). A component of a
  single node, such as a node with a self-loop, is never emitted. The call returns
  whenever the recursion limit is at least the number of nodes.
\<close>

theorem encontrar_cfc_componentes:
  "(length (node_list g) \<le> limite \<longrightarrow> (\<exists>cs. encontrar_cfc limite g = Inr cs))
   \<and> (\<forall>cs. encontrar_cfc limite g = Inr cs \<longrightarrow>
        (\<forall>c \<in> set cs. 2 \<le> length c \<and> distinct c \<and>
           (\<forall>u \<in> set c. \<forall>v \<in> set c. (u, v) \<in> (edges g)\<^sup>+))
        \<and> (\<forall>n. [n] \<notin> set cs))"
proof -
  note r = encontrar_cfc_retorna [of g limite]
  have a: "\<exists>cs. encontrar_cfc limite g = Inr cs" if "length (node_list g) \<le> limite"
    using r that retorna_valor [of _ "encontrar_cfc limite g"] by blast
  have b: "2 \<le> length c \<and> distinct c \<and> (\<forall>u \<in> set c. \<forall>v \<in> set c. (u, v) \<in> (edges g)\<^sup>+)"
    if "encontrar_cfc limite g = Inr cs" "c \<in> set cs" for cs c
  proof -
    have ok: "componente_ok g c" using r that by simp
    then have "2 \<le> length c \<and> distinct c" by (simp add: componente_ok_def)
    then show ?thesis using componente_ok_mutuo [OF ok] by blast
  qed
  have c: "[n] \<notin> set cs" if "encontrar_cfc limite g = Inr cs" for cs n
    using b [OF that, of "[n]"] by auto
  show ?thesis using a b c by blast
qed

theorem encontrar_cfc_componentes_witness:
  "length (node_list triangulo) \<le> 3 \<and>
   encontrar_cfc 3 triangulo = Inr [[''C'', ''B'', ''A'']] \<and>
   2 \<le> length [''C'', ''B'', ''A''] \<and> distinct [''C'', ''B'', ''A''] \<and>
   (''A'', ''C'') \<in> (edges triangulo)\<^sup>+ \<and> (''C'', ''A'') \<in> (edges triangulo)\<^sup>+ \<and>
   (''B'', ''B'') \<in> (edges triangulo)\<^sup>+ \<and>
   length (node_list laco) \<le> 1 \<and> encontrar_cfc 1 laco = Inr [] \<and> [''A''] \<notin> set []"
proof -
  have l: "length (node_list triangulo) \<le> 3" by code_simp
  have v: "encontrar_cfc 3 triangulo = Inr [[''C'', ''B'', ''A'']]" by code_simp
  have l': "length (node_list laco) \<le> 1" by code_simp
  have v': "encontrar_cfc 1 laco = Inr []" by code_simp
  show ?thesis
    using l v l' v' encontrar_cfc_componentes [of triangulo 3]
      encontrar_cfc_componentes [of laco 1]
    by simp
qed

section \<open>No analysis raises a lookup error\<close>

text \<open>
  C10. On every adjacency mapping, also one in which an edge destination is not a
  key, none of the six analyses raises \<open>KeyError\<close> (nor \<open>IndexError\<close> or
  \<open>ValueError\<close>): the only exception that is possible is \<open>RecursionError\<close>, and each
  analysis returns a value when the recursion limit exceeds the number of nodes.
\<close>

theorem analises_sem_erro_de_chave:
  "(\<forall>e. tem_ciclo limite g = Inl e \<longrightarrow> e = RecursionError)
   \<and> (\<forall>e. encontrar_cfc limite g = Inl e \<longrightarrow> e = RecursionError)
   \<and> (\<forall>e. ordem_instalacao limite g = Inl e \<longrightarrow> e = RecursionError)
   \<and> (\<exists>r. encontrar_pacotes_criticos g = Inr r)
   \<and> (\<forall>e. consultar_dependencias limite g n = Inl e \<longrightarrow> e = RecursionError)
   \<and> (\<forall>e. simular_remocao limite g n = Inl e \<longrightarrow> e = RecursionError)
   \<and> (length (node_list g) < limite \<longrightarrow>
        (\<exists>r. tem_ciclo limite g = Inr r) \<and> (\<exists>r. encontrar_cfc limite g = Inr r) \<and>
        (\<exists>r. ordem_instalacao limite g = Inr r) \<and>
        (\<exists>r. consultar_dependencias limite g n = Inr r) \<and>
        (\<exists>r. simular_remocao limite g n = Inr r))"
proof -
  note tc = tem_ciclo_retorna [of g limite]
  note cf = encontrar_cfc_retorna [of g limite]
  note oi = ordem_instalacao_retorna [of g limite]
  have cd: "retorna (cd_post g n {}) (consultar_dependencias limite g n)"
    unfolding consultar_dependencias_def by (rule cd_dfs_retorna)
  from simular_remocao_cd [of g limite n] obtain h where
    h: "card (nodes h) \<le> length (node_list g)" "simular_remocao limite g n = cd_dfs limite h n {}"
    by blast
  have sr: "retorna (cd_post h n {}) (simular_remocao limite g n)"
    unfolding h(2) by (rule cd_dfs_retorna)
  have 1: "\<forall>e. tem_ciclo limite g = Inl e \<longrightarrow> e = RecursionError"
    using tc retorna_erro by blast
  have 2: "\<forall>e. encontrar_cfc limite g = Inl e \<longrightarrow> e = RecursionError"
    using cf retorna_erro by blast
  have 3: "\<forall>e. ordem_instalacao limite g = Inl e \<longrightarrow> e = RecursionError"
    using oi retorna_erro by blast
  have 4: "\<exists>r. encontrar_pacotes_criticos g = Inr r" by (rule criticos_total)
  have 5: "\<forall>e. consultar_dependencias limite g n = Inl e \<longrightarrow> e = RecursionError"
    using cd retorna_erro by blast
  have 6: "\<forall>e. simular_remocao limite g n = Inl e \<longrightarrow> e = RecursionError"
    using sr retorna_erro by blast
  have 7: "(\<exists>r. tem_ciclo limite g = Inr r) \<and> (\<exists>r. encontrar_cfc limite g = Inr r) \<and>
        (\<exists>r. ordem_instalacao limite g = Inr r) \<and>
        (\<exists>r. consultar_dependencias limite g n = Inr r) \<and>
        (\<exists>r. simular_remocao limite g n = Inr r)" if l: "length (node_list g) < limite"
  proof -
    have le: "length (node_list g) \<le> limite" using l by simp
    have a: "\<exists>r. tem_ciclo limite g = Inr r"
      using tc le retorna_valor [of _ "tem_ciclo limite g"] by blast
    have b: "\<exists>r. encontrar_cfc limite g = Inr r"
      using cf le retorna_valor [of _ "encontrar_cfc limite g"] by blast
    have c: "\<exists>r. ordem_instalacao limite g = Inr r"
      using le by (rule ordem_instalacao_total)
    have d: "\<exists>r. consultar_dependencias limite g n = Inr r"
      unfolding consultar_dependencias_def using l by (rule cd_dfs_limite)
    have "card (nodes h - {}) < limite" using h(1) l by simp
    then have e: "\<exists>r. simular_remocao limite g n = Inr r"
      unfolding h(2) by (rule cd_dfs_total)
    show ?thesis using a b c d e by blast
  qed
  show ?thesis using 1 2 3 4 5 6 7 by blast
qed

theorem analises_sem_erro_de_chave_witness:
  "\<not> invariant incompleto \<and> length (node_list incompleto) < 3 \<and>
   (\<exists>r. tem_ciclo 3 incompleto = Inr r) \<and> (\<exists>r. encontrar_cfc 3 incompleto = Inr r) \<and>
   (\<exists>r. ordem_instalacao 3 incompleto = Inr r) \<and>
   (\<exists>r. encontrar_pacotes_criticos incompleto = Inr r) \<and>
   (\<exists>r. consultar_dependencias 3 incompleto ''B'' = Inr r) \<and>
   (\<exists>r. simular_remocao 3 incompleto ''B'' = Inr r)"
proof -
  have i: "\<not> invariant incompleto" by code_simp
  have l: "length (node_list incompleto) < 3" by code_simp
  show ?thesis using i l analises_sem_erro_de_chave [of 3 incompleto "''B''"] by blast
qed


end
